theory Spec2Isabelle
  imports Complex_Main "HOL-Library.AList"
begin

section \<open>Python values, errors and numpy floats\<close>

text \<open>
  The exceptions that \<open>navis/interfaces/nrn.py\<close> raises itself (\<open>ValueError\<close> in
  \<open>_validate_skeleton\<close>, \<open>TypeError\<close> in \<open>_add_record\<close>) and the ones its lookups raise
  (\<open>KeyError\<close> from \<open>nodes.loc[...]\<close> and \<open>G.edges[...]\<close>, \<open>IndexError\<close> from
  \<open>self.sections[...]\<close>, \<open>AttributeError\<close> from \<open>getattr\<close> on a segment,
  \<open>LookupError\<close> from \<open>getattr(neuron.h, ...)\<close>, \<open>ZeroDivisionError\<close> from
  the \<open>nseg\<close> formula), and the \<open>ValueError\<close> with which NEURON refuses a
  value (a length or an axial resistance that is not positive, a subdivision count outside
  1..32767, a name that is no density mechanism). A \<open>ValueError\<close> carries its message.
\<close>

datatype error =
    ValueError string
  | TypeError
  | KeyError
  | IndexError
  | AttributeError
  | LookupError
  | ZeroDivisionError

text \<open>Arguments that the code type-checks at run time (\<open>isinstance(what, str)\<close>).\<close>

datatype pyval = PStr string | PInt int | PNone

text \<open>
  Lengths and positions are numpy floats. Rounding is not modelled: a finite float is a
  rational number and arithmetic on finite values is exact. What is modelled is numpy's
  division by zero, which does not raise but yields \<open>nan\<close> or an infinity.
\<close>

datatype npfloat = Fin rat | PInf | NInf | NaN

definition np_divide :: "rat \<Rightarrow> rat \<Rightarrow> npfloat" where
  "np_divide a b =
     (if b \<noteq> 0 then Fin (a / b)
      else if a = 0 then NaN
      else if 0 < a then PInf else NInf)"

definition np_times :: "npfloat \<Rightarrow> rat \<Rightarrow> npfloat" where
  "np_times x k =
     (case x of
        Fin r \<Rightarrow> Fin (r * k)
      | NaN \<Rightarrow> NaN
      | PInf \<Rightarrow> (if k = 0 then NaN else if 0 < k then PInf else NInf)
      | NInf \<Rightarrow> (if k = 0 then NaN else if 0 < k then NInf else PInf))"

definition np_plus :: "npfloat \<Rightarrow> npfloat \<Rightarrow> npfloat" where
  "np_plus x y =
     (case x of
        NaN \<Rightarrow> NaN
      | Fin a \<Rightarrow> (case y of Fin b \<Rightarrow> Fin (a + b) | PInf \<Rightarrow> PInf | NInf \<Rightarrow> NInf | NaN \<Rightarrow> NaN)
      | PInf \<Rightarrow> (case y of Fin b \<Rightarrow> PInf | PInf \<Rightarrow> PInf | NInf \<Rightarrow> NaN | NaN \<Rightarrow> NaN)
      | NInf \<Rightarrow> (case y of Fin b \<Rightarrow> NInf | PInf \<Rightarrow> NaN | NInf \<Rightarrow> NInf | NaN \<Rightarrow> NaN))"

text \<open>\<open>x <= 0\<close> on a numpy float: false for \<open>nan\<close>.\<close>

definition np_le_zero :: "npfloat \<Rightarrow> bool" where
  "np_le_zero x = (case x of Fin q \<Rightarrow> q \<le> 0 | NInf \<Rightarrow> True | PInf \<Rightarrow> False | NaN \<Rightarrow> False)"

text \<open>\<open>dist.cumsum()\<close>: running sums, left to right.\<close>

fun cumsum_from :: "rat \<Rightarrow> rat list \<Rightarrow> rat list" where
  "cumsum_from a [] = []"
| "cumsum_from a (x # xs) = (a + x) # cumsum_from (a + x) xs"

definition cumsum :: "rat list \<Rightarrow> rat list" where
  "cumsum xs = cumsum_from 0 xs"

text \<open>Python's \<open>int(x)\<close> on a float: truncation towards zero.\<close>

definition py_int :: "rat \<Rightarrow> int" where
  "py_int q = (if 0 \<le> q then \<lfloor>q\<rfloor> else \<lceil>q\<rceil>)"

definition startswith :: "string \<Rightarrow> string \<Rightarrow> bool" where
  "startswith s p = (take (length p) s = p)"

section \<open>The skeleton\<close>

text \<open>
  A row of the node table \<open>skeleton.nodes\<close>: the node's id, its parent's id (none for a
  root) and its radius, a float that may be \<open>nan\<close>. \<open>parent_dist\<close> is the weight of the
  graph edge from the node to its parent, \<open>G.edges[(c, p)]['weight']\<close>; it is meaningless
  on a root.
\<close>

record node_row =
  node_id :: int
  parent_id :: "int option"
  radius :: npfloat
  parent_dist :: rat

text \<open>The unit tag of a skeleton (a pint quantity): its magnitude and its unit's name.\<close>

record pint_quantity =
  magnitude :: rat
  unit_name :: string

record skeleton =
  nodes :: "node_row list"
  columns :: "string list"
  units :: "pint_quantity option"

definition node_ids :: "skeleton \<Rightarrow> int list" where
  "node_ids sk = map node_id (nodes sk)"

text \<open>\<open>skeleton.root\<close>: the ids of the nodes without a parent.\<close>

definition roots :: "skeleton \<Rightarrow> int list" where
  "roots sk = map node_id (filter (\<lambda>r. parent_id r = None) (nodes sk))"

definition lookup_row :: "skeleton \<Rightarrow> int \<Rightarrow> node_row option" where
  "lookup_row sk n = find (\<lambda>r. node_id r = n) (nodes sk)"

definition parent :: "skeleton \<Rightarrow> int \<Rightarrow> int option" where
  "parent sk n = (case lookup_row sk n of None \<Rightarrow> None | Some r \<Rightarrow> parent_id r)"

definition children :: "skeleton \<Rightarrow> int \<Rightarrow> int list" where
  "children sk n = map node_id (filter (\<lambda>r. parent_id r = Some n) (nodes sk))"

text \<open>
  Modelled from the spec: the skeleton's graph \<open>skeleton.graph\<close> is built by navis' core,
  which is not part of the sources. Section 3 of the specification gives it as the
  parent/child adjacency with an edge weight (the distance between adjacent nodes); here
  the edge from \<open>c\<close> to \<open>p\<close> exists when \<open>p\<close> is the parent of \<open>c\<close> in the node table, and a
  lookup of an edge that does not exist raises \<open>KeyError\<close>.
\<close>

definition edge_weight :: "skeleton \<Rightarrow> int \<Rightarrow> int \<Rightarrow> error + rat" where
  "edge_weight sk c p =
     (case find (\<lambda>r. node_id r = c \<and> parent_id r = Some p) (nodes sk) of
        None \<Rightarrow> Inl KeyError
      | Some r \<Rightarrow> Inr (parent_dist r))"

text \<open>
  Modelled from the spec: \<open>skeleton.small_segments\<close> is computed by navis' graph module,
  which is not part of the sources. Section 4.2, step 1: the maximal unbranched chains;
  every node with exactly one child belongs to the same chain as that child; nodes with
  zero or at least two children, and roots, terminate or start chains. Section 3: a chain
  is traversed child to parent. So a chain starts at every node that has a parent and does
  not have exactly one child, and follows the parent links up to and including the first
  node that is a root or has at least two children.
\<close>

definition is_stop :: "skeleton \<Rightarrow> int \<Rightarrow> bool" where
  "is_stop sk n = (n \<in> set (roots sk) \<or> 2 \<le> length (children sk n))"

definition seeds :: "skeleton \<Rightarrow> int list" where
  "seeds sk =
     map node_id
       (filter (\<lambda>r. parent_id r \<noteq> None \<and> length (children sk (node_id r)) \<noteq> 1) (nodes sk))"

fun chain_up :: "skeleton \<Rightarrow> nat \<Rightarrow> int \<Rightarrow> int list" where
  "chain_up sk 0 n = [n]"
| "chain_up sk (Suc k) n =
     (case parent sk n of
        None \<Rightarrow> [n]
      | Some p \<Rightarrow> if is_stop sk p then [n, p] else n # chain_up sk k p)"

definition small_segments :: "skeleton \<Rightarrow> int list list" where
  "small_segments sk = map (chain_up sk (length (nodes sk))) (seeds sk)"

text \<open>
  Modelled from the spec: \<open>graph.segment_length\<close> is not part of the sources. Section 3:
  the length of a Section is the sum of its constituent edge weights.
\<close>

fun collect :: "(error + 'a) list \<Rightarrow> error + 'a list" where
  "collect [] = Inr []"
| "collect (x # xs) =
     (case x of
        Inl e \<Rightarrow> Inl e
      | Inr v \<Rightarrow> (case collect xs of Inl e \<Rightarrow> Inl e | Inr vs \<Rightarrow> Inr (v # vs)))"

text \<open>\<open>[G.edges[(c, p)]['weight'] for c, p in zip(seg[:-1], seg[1:])]\<close>\<close>

definition seg_dist :: "skeleton \<Rightarrow> int list \<Rightarrow> error + rat list" where
  "seg_dist sk seg = collect (map (\<lambda>(c, p). edge_weight sk c p) (zip (butlast seg) (tl seg)))"

definition segment_length :: "skeleton \<Rightarrow> int list \<Rightarrow> error + rat" where
  "segment_length sk seg =
     (case seg_dist sk seg of Inl e \<Rightarrow> Inl e | Inr ds \<Rightarrow> Inr (sum_list ds))"

section \<open>Validation\<close>

datatype warning = UnitsWarning | MultipleRootsWarning

text \<open>
  A pint quantity is truthy when its magnitude is not zero; \<open>ureg.Unit('um')\<close> is the
  micrometer.
\<close>

definition dimensionless :: "pint_quantity \<Rightarrow> bool" where
  "dimensionless q = (unit_name q = ''dimensionless'')"

definition units_warning :: "skeleton \<Rightarrow> bool" where
  "units_warning sk =
     (case units sk of
        None \<Rightarrow> False
      | Some q \<Rightarrow> magnitude q \<noteq> 0 \<and> \<not> dimensionless q \<and> unit_name q \<noteq> ''micrometer'')"

definition validate_skeleton :: "skeleton \<Rightarrow> error + warning list" where
  "validate_skeleton sk =
     (let w1 = (if units_warning sk then [UnitsWarning] else []);
          w2 = (if 1 < length (roots sk) then [MultipleRootsWarning] else [])
      in if ''radius'' \<notin> set (columns sk)
         then Inl (ValueError ''Neuron node table must have `radius` column'')
         else if \<exists>r \<in> set (nodes sk). np_le_zero (radius r)
         then Inl (ValueError ''Neuron node table contains radii <= 0.'')
         else Inr (w1 @ w2))"

section \<open>The compartment model\<close>

text \<open>
  A NEURON section as \<open>_generate_sections\<close> sets it up: its name \<open>segment_{i}\<close> (the index
  \<open>i\<close> is kept), length, diameter, subdivision count, the connection of its proximal end
  (index of the parent section and the position on it), axial resistance, membrane
  capacity and the inserted mechanisms. A mechanism has one instance per segment of the
  section (\<open>getattr(seg, mechanism)\<close>): it is kept with the parameters set on each of
  them, in the order of the segments.
\<close>

record nrn_section =
  sec_name :: nat
  sec_L :: rat
  sec_diam :: npfloat
  sec_nseg :: int
  sec_parent :: "(nat \<times> rat) option"
  sec_Ra :: rat
  sec_cm :: rat
  sec_mechs :: "(string \<times> (string \<times> rat) list list) list"

text \<open>
  The objects that the model creates in NEURON. The model's registries hold references to
  them: a reference is the object's index in the list \<open>hoc\<close> of all objects created so
  far, so two references denote the same instance exactly when they are equal.
\<close>

datatype hobj =
    Vector "(nat \<times> npfloat \<times> string) option"
  | PointProcess string nat npfloat "(string \<times> rat) list"
  | NetStim "(string \<times> rat) list"
  | NetCon nat nat "(string \<times> rat) list"

text \<open>The keys of \<open>self._records\<close>: a caller's label or a node id.\<close>

datatype rkey = KLabel string | KNode int

text \<open>
  \<open>node2sec\<close> and \<open>node2pos\<close> are the columns \<open>sec_ix\<close> and \<open>sec_pos\<close> that
  \<open>_generate_sections\<close> adds to the node table of the model's copy of the skeleton; a
  node of the table without an entry has \<open>nan\<close> in both columns. Python dictionaries keep
  insertion order: they are association lists, updated with \<open>AList.update\<close>.
  \<open>sections_is_array\<close> tells whether \<open>_sections\<close> is the numpy array that construction
  leaves or the plain list that \<open>clear\<close> leaves.
\<close>

record model =
  skeleton :: skeleton
  res :: rat
  node2sec :: "(int \<times> nat) list"
  node2pos :: "(int \<times> npfloat) list"
  sections :: "nrn_section list"
  sections_is_array :: bool
  stimuli :: "(int \<times> nat list) list"
  records :: "(rkey \<times> nat) list"
  synapses :: "(int \<times> nat list) list"
  hoc :: "hobj list"

text \<open>
  What the NEURON engine knows: the classes that \<open>getattr(neuron.h, name)\<close> finds, the
  references that \<open>getattr(sec(x), name)\<close> finds on a section, the density mechanisms
  that \<open>sec.insert(name)\<close> accepts, the parameters that \<open>setattr\<close> can set on a
  mechanism of a segment, and the names other than mechanisms that a Section object has
  as attributes (\<open>L\<close>, \<open>nseg\<close>, \<open>Ra\<close>, range variables, methods).
\<close>

record engine =
  h_class :: "string \<Rightarrow> bool"
  seg_attr :: "nrn_section \<Rightarrow> string \<Rightarrow> bool"
  density_mech :: "string \<Rightarrow> bool"
  mech_param :: "string \<Rightarrow> string \<Rightarrow> bool"
  sec_attr :: "nrn_section \<Rightarrow> string \<Rightarrow> bool"

subsection \<open>\<open>_generate_sections\<close>\<close>

text \<open>
  The body of the first loop for one segment. The distances child to parent are reversed
  to read parent to child, a zero is put in front, and the cumulative sums are divided by
  the sum (\<open>norm_pos\<close>). The first node of the reversed segment, with its position, is
  dropped unless it is a root.
\<close>

definition norm_pos :: "rat list \<Rightarrow> npfloat list" where
  "norm_pos ds =
     (let ds2 = 0 # rev ds
      in map (\<lambda>c. np_divide c (sum_list ds2)) (cumsum ds2))"

definition segment_positions :: "skeleton \<Rightarrow> int list \<Rightarrow> error + (int list \<times> npfloat list)" where
  "segment_positions sk seg =
     (case seg_dist sk seg of
        Inl e \<Rightarrow> Inl e
      | Inr ds \<Rightarrow>
          (case rev seg of
             [] \<Rightarrow> Inl IndexError
           | s0 # rest \<Rightarrow>
               if s0 \<notin> set (roots sk) then Inr (rest, tl (norm_pos ds))
               else Inr (s0 # rest, norm_pos ds)))"

fun locate_loop ::
  "skeleton \<Rightarrow> nat \<Rightarrow> int list list \<Rightarrow> (int \<times> nat) list \<Rightarrow> (int \<times> npfloat) list \<Rightarrow>
     error + ((int \<times> nat) list \<times> (int \<times> npfloat) list)" where
  "locate_loop sk i [] n2s n2p = Inr (n2s, n2p)"
| "locate_loop sk i (seg # segs) n2s n2p =
     (case segment_positions sk seg of
        Inl e \<Rightarrow> Inl e
      | Inr (ks, ps) \<Rightarrow>
          locate_loop sk (Suc i) segs
            (AList.updates ks (replicate (length ks) i) n2s)
            (AList.updates ks ps n2p))"

text \<open>\<open>nodes.loc[seg, 'radius'].mean() * 2\<close>\<close>

definition seg_radii :: "skeleton \<Rightarrow> int list \<Rightarrow> error + npfloat list" where
  "seg_radii sk seg =
     collect (map (\<lambda>n. case lookup_row sk n of None \<Rightarrow> Inl KeyError | Some r \<Rightarrow> Inr (radius r)) seg)"

text \<open>
  The mean of a pandas series skips \<open>nan\<close>; it is \<open>nan\<close> when nothing is left.
\<close>

definition mean :: "npfloat list \<Rightarrow> npfloat" where
  "mean xs =
     (let vs = filter (\<lambda>x. x \<noteq> NaN) xs
      in if vs = [] then NaN
         else np_times (foldl np_plus (Fin 0) vs) (1 / of_nat (length vs)))"

text \<open>\<open>1 + 2 * int(sec.L / (self.res * 2))\<close>\<close>

definition nseg_of :: "rat \<Rightarrow> rat \<Rightarrow> error + int" where
  "nseg_of len r =
     (if r * 2 = 0 then Inl ZeroDivisionError else Inr (1 + 2 * py_int (len / (r * 2))))"

text \<open>
  The body of the second loop. NEURON's defaults for a new section are \<open>Ra = 35.4\<close>,
  \<open>cm = 1\<close> and nothing inserted. NEURON checks what is assigned: \<open>sec.L = x\<close> raises
  \<open>ValueError\<close> unless \<open>x > 0\<close>, and \<open>sec.nseg = n\<close> raises \<open>ValueError\<close> unless
  \<open>1 \<le> n \<le> 32767\<close>; the diameter is stored as it is computed.
\<close>

definition make_section :: "skeleton \<Rightarrow> rat \<Rightarrow> nat \<Rightarrow> int list \<Rightarrow> error + nrn_section" where
  "make_section sk r i seg =
     (case segment_length sk seg of
        Inl e \<Rightarrow> Inl e
      | Inr len \<Rightarrow>
          if len \<le> 0 then Inl (ValueError ''L must be > 0.'')
          else
            (case seg_radii sk seg of
               Inl e \<Rightarrow> Inl e
             | Inr rs \<Rightarrow>
                 (case nseg_of len r of
                    Inl e \<Rightarrow> Inl e
                  | Inr n \<Rightarrow>
                      if n < 1 \<or> 32767 < n
                      then Inl (ValueError ''nseg must be an integer in range 1 to 32767'')
                      else
                        Inr \<lparr>sec_name = i, sec_L = len, sec_diam = np_times (mean rs) 2,
                             sec_nseg = n, sec_parent = None, sec_Ra = 354 / 10, sec_cm = 1,
                             sec_mechs = []\<rparr>)))"

fun sections_loop :: "skeleton \<Rightarrow> rat \<Rightarrow> nat \<Rightarrow> int list list \<Rightarrow> error + nrn_section list" where
  "sections_loop sk r i [] = Inr []"
| "sections_loop sk r i (seg # segs) =
     (case make_section sk r i seg of
        Inl e \<Rightarrow> Inl e
      | Inr s \<Rightarrow>
          (case sections_loop sk r (Suc i) segs of
             Inl e \<Rightarrow> Inl e
           | Inr ss \<Rightarrow> Inr (s # ss)))"

text \<open>
  \<open>nodes['sec_ix'] = nodes.node_id.map(node2sec)\<close>: a node without an entry gets
  \<open>nan\<close>, and one \<open>nan\<close> makes the whole column a float column. A float, \<open>nan\<close> or not,
  is no index into the sections: \<open>self.sections[...]\<close> raises \<open>IndexError\<close>.
\<close>

definition sec_ix_is_float :: "skeleton \<Rightarrow> (int \<times> nat) list \<Rightarrow> bool" where
  "sec_ix_is_float sk n2s = (\<exists>n \<in> set (node_ids sk). map_of n2s n = None)"

text \<open>
  The third loop. \<open>self.sections[i].connect(parent_sec)\<close> passes no position: NEURON
  then connects the child's end 0 to the parent's end 1.
\<close>

fun connect_loop ::
  "skeleton \<Rightarrow> (int \<times> nat) list \<Rightarrow> nat \<Rightarrow> int list list \<Rightarrow> nrn_section list \<Rightarrow>
     error + nrn_section list" where
  "connect_loop sk n2s i [] secs = Inr secs"
| "connect_loop sk n2s i (seg # segs) secs =
     (if seg = [] then Inl IndexError
      else if last seg \<in> set (roots sk) then connect_loop sk n2s (Suc i) segs secs
      else
        (case lookup_row sk (last seg) of
           None \<Rightarrow> Inl KeyError
         | Some r \<Rightarrow>
             if sec_ix_is_float sk n2s then Inl IndexError
             else
               (case map_of n2s (last seg) of
                  None \<Rightarrow> Inl IndexError
                | Some j \<Rightarrow>
                    if j < length secs
                    then connect_loop sk n2s (Suc i) segs
                           (secs[i := (secs ! i)\<lparr>sec_parent := Some (j, 1)\<rparr>])
                    else Inl IndexError)))"

definition generate_sections :: "skeleton \<Rightarrow> rat \<Rightarrow> error + model" where
  "generate_sections sk r =
     (case locate_loop sk 0 (small_segments sk) [] [] of
        Inl e \<Rightarrow> Inl e
      | Inr (n2s, n2p) \<Rightarrow>
          (case sections_loop sk r 0 (small_segments sk) of
             Inl e \<Rightarrow> Inl e
           | Inr secs \<Rightarrow>
               (case connect_loop sk n2s 0 (small_segments sk) secs of
                  Inl e \<Rightarrow> Inl e
                | Inr secs' \<Rightarrow>
                    Inr \<lparr>skeleton = sk, res = r, node2sec = n2s, node2pos = n2p,
                         sections = secs', sections_is_array = True,
                         stimuli = [], records = [], synapses = [], hoc = []\<rparr>)))"

text \<open>\<open>NeuronCompartmentModel.__init__\<close>: an exception leaves no model.\<close>

definition construct :: "skeleton \<Rightarrow> rat \<Rightarrow> error + model" where
  "construct sk r =
     (case validate_skeleton sk of
        Inl e \<Rightarrow> Inl e
      | Inr ws \<Rightarrow> generate_sections sk r)"

section \<open>Instrumentation\<close>

text \<open>
  A method call mutates the model in place and may raise part-way: every operation
  returns the exception it raised, if any, together with the model as the call left it.
  \<open>where\<close> is the list of node ids that \<open>utils.make_iterable\<close> yields.
\<close>

definition new_ref :: "model \<Rightarrow> nat" where
  "new_ref m = length (hoc m)"

definition create :: "hobj \<Rightarrow> model \<Rightarrow> model" where
  "create ob m = m\<lparr>hoc := hoc m @ [ob]\<rparr>"

text \<open>\<open>d.get(k, [])\<close>\<close>

definition get_list :: "(int \<times> nat list) list \<Rightarrow> int \<Rightarrow> nat list" where
  "get_list d k = (case map_of d k of None \<Rightarrow> [] | Some v \<Rightarrow> v)"

text \<open>
  \<open>nodes.loc[where]\<close> on the table indexed by node id raises \<open>KeyError\<close>, before any
  row is visited, when one of the ids is not in the index.
\<close>

definition loc_fails :: "model \<Rightarrow> int list \<Rightarrow> bool" where
  "loc_fails m wh = (\<exists>n \<in> set wh. n \<notin> set (node_ids (skeleton m)))"

text \<open>
  \<open>self.sections[node.sec_ix](node.sec_pos)\<close>: indexing the sections with a float or
  past the end raises \<open>IndexError\<close>.
\<close>

definition location :: "model \<Rightarrow> int \<Rightarrow> error + (nat \<times> npfloat)" where
  "location m n =
     (if sec_ix_is_float (skeleton m) (node2sec m) then Inl IndexError
      else
        (case map_of (node2sec m) n of
           None \<Rightarrow> Inl IndexError
         | Some i \<Rightarrow>
             if i < length (sections m)
             then Inr (i, (case map_of (node2pos m) n of None \<Rightarrow> NaN | Some x \<Rightarrow> x))
             else Inl IndexError))"

subsection \<open>\<open>add_synaptic_input\<close>\<close>

record syn_params =
  start :: rat
  spike_no :: rat
  spike_int :: rat
  spike_noise :: rat
  syn_tau1 :: rat
  syn_tau2 :: rat
  syn_rev_pot :: rat
  syn_curr :: rat
  cn_thresh :: rat
  cn_delay :: rat
  cn_weight :: rat

fun synaptic_loop :: "syn_params \<Rightarrow> nat \<Rightarrow> int list \<Rightarrow> model \<Rightarrow> error option \<times> model" where
  "synaptic_loop P stim [] m = (None, m)"
| "synaptic_loop P stim (n # ns) m =
     (case location m n of
        Inl e \<Rightarrow> (Some e, m)
      | Inr (i, x) \<Rightarrow>
          (let syn = new_ref m;
               m1 = create (PointProcess ''Exp2Syn'' i x
                      [(''tau1'', syn_tau1 P), (''tau2'', syn_tau2 P),
                       (''e'', syn_rev_pot P), (''i'', syn_curr P)]) m;
               m2 = m1\<lparr>synapses := AList.update n (get_list (synapses m1) n @ [syn]) (synapses m1)\<rparr>;
               ncstim = new_ref m2;
               m3 = create (NetCon stim syn
                      [(''threshold'', cn_thresh P), (''delay'', cn_delay P),
                       (''weight[0]'', cn_weight P)]) m2;
               m4 = m3\<lparr>stimuli := AList.update n (get_list (stimuli m3) n @ [ncstim, stim]) (stimuli m3)\<rparr>
           in synaptic_loop P stim ns m4))"

definition add_synaptic_input :: "int list \<Rightarrow> syn_params \<Rightarrow> model \<Rightarrow> error option \<times> model" where
  "add_synaptic_input wh P m =
     (let stim = new_ref m;
          m1 = create (NetStim
                 [(''number'', spike_no P), (''start'', start P),
                  (''noise'', spike_noise P), (''interval'', spike_int P)]) m
      in if loc_fails m1 wh then (Some KeyError, m1) else synaptic_loop P stim wh m1)"

subsection \<open>\<open>_add_stimulus\<close> and its callers\<close>

text \<open>The stimulus is a class of \<open>neuron.h\<close>, given itself or by its name.\<close>

datatype stim_arg = ByName string | Callable string

fun stimulus_loop :: "string \<Rightarrow> (string \<times> rat) list \<Rightarrow> int list \<Rightarrow> model \<Rightarrow> error option \<times> model" where
  "stimulus_loop c kwargs [] m = (None, m)"
| "stimulus_loop c kwargs (n # ns) m =
     (case location m n of
        Inl e \<Rightarrow> (Some e, m)
      | Inr (i, x) \<Rightarrow>
          (let stim = new_ref m;
               m1 = create (PointProcess c i x kwargs) m;
               m2 = m1\<lparr>stimuli := AList.update n (get_list (stimuli m1) n @ [stim]) (stimuli m1)\<rparr>
           in stimulus_loop c kwargs ns m2))"

definition add_stimulus ::
  "engine \<Rightarrow> stim_arg \<Rightarrow> int list \<Rightarrow> (string \<times> rat) list \<Rightarrow> model \<Rightarrow> error option \<times> model" where
  "add_stimulus E stimulus wh kwargs m =
     (case (case stimulus of
              Callable c \<Rightarrow> Inr c
            | ByName s \<Rightarrow> if h_class E s then Inr s else Inl LookupError) of
        Inl e \<Rightarrow> (Some e, m)
      | Inr c \<Rightarrow>
          if loc_fails m wh then (Some KeyError, m) else stimulus_loop c kwargs wh m)"

definition inject_current_pulse ::
  "engine \<Rightarrow> int list \<Rightarrow> rat \<Rightarrow> rat \<Rightarrow> rat \<Rightarrow> model \<Rightarrow> error option \<times> model" where
  "inject_current_pulse E wh st duration current m =
     add_stimulus E (ByName ''IClamp'') wh
       [(''delay'', st), (''dur'', duration), (''i'', current)] m"

definition add_synaptic_current ::
  "engine \<Rightarrow> int list \<Rightarrow> rat \<Rightarrow> rat \<Rightarrow> rat \<Rightarrow> rat \<Rightarrow> model \<Rightarrow> error option \<times> model" where
  "add_synaptic_current E wh st tau rev_pot max_syn_cond m =
     add_stimulus E (ByName ''AlphaSynapse'') wh
       [(''onset'', st), (''tau'', tau), (''e'', rev_pot), (''gmax'', max_syn_cond)] m"

subsection \<open>\<open>_add_record\<close> and its callers\<close>

text \<open>\<open>if label:\<close> holds for a string that is not empty.\<close>

definition label_given :: "string option \<Rightarrow> bool" where
  "label_given label = (case label of None \<Rightarrow> False | Some l \<Rightarrow> l \<noteq> [])"

definition record_key :: "string option \<Rightarrow> int \<Rightarrow> rkey" where
  "record_key label n = (if label_given label then KLabel (the label) else KNode n)"

text \<open>
  \<open>neuron.h.Vector().record(getattr(sec, what))\<close>: the vector is created first, then
  the reference is looked up, then the vector is bound to it.
\<close>

fun record_loop :: "engine \<Rightarrow> string \<Rightarrow> string option \<Rightarrow> int list \<Rightarrow> model \<Rightarrow> error option \<times> model" where
  "record_loop E w label [] m = (None, m)"
| "record_loop E w label (n # ns) m =
     (case location m n of
        Inl e \<Rightarrow> (Some e, m)
      | Inr (i, x) \<Rightarrow>
          (let rec = new_ref m;
               m1 = create (Vector None) m
           in if \<not> seg_attr E (sections m1 ! i) w then (Some AttributeError, m1)
              else
                (let m2 = m1\<lparr>hoc := (hoc m1)[rec := Vector (Some (i, x, w))]\<rparr>;
                     m3 = m2\<lparr>records := AList.update (record_key label n) rec (records m2)\<rparr>
                 in record_loop E w label ns m3)))"

text \<open>\<open>if not what.startswith('_ref_'): what = f'_ref_{what}'\<close>\<close>

definition ref_name :: "string \<Rightarrow> string" where
  "ref_name w = (if \<not> startswith w ''_ref_'' then ''_ref_'' @ w else w)"

definition add_record ::
  "engine \<Rightarrow> int list \<Rightarrow> pyval \<Rightarrow> string option \<Rightarrow> model \<Rightarrow> error option \<times> model" where
  "add_record E wh what label m =
     (case what of
        PStr w \<Rightarrow>
          if loc_fails m wh then (Some KeyError, m) else record_loop E (ref_name w) label wh m
      | _ \<Rightarrow> (Some TypeError, m))"

definition add_voltage_record ::
  "engine \<Rightarrow> int list \<Rightarrow> string option \<Rightarrow> model \<Rightarrow> error option \<times> model" where
  "add_voltage_record E wh label m = add_record E wh (PStr ''v'') label m"

definition add_current_record ::
  "engine \<Rightarrow> int list \<Rightarrow> string option \<Rightarrow> model \<Rightarrow> error option \<times> model" where
  "add_current_record E wh label m = add_record E wh (PStr ''i'') label m"

subsection \<open>Clearing\<close>

definition clear_records :: "model \<Rightarrow> model" where
  "clear_records m = m\<lparr>records := []\<rparr>"

definition clear_stimuli :: "model \<Rightarrow> model" where
  "clear_stimuli m = m\<lparr>stimuli := []\<rparr>"

definition clear_synapses :: "model \<Rightarrow> model" where
  "clear_synapses m = m\<lparr>synapses := []\<rparr>"

definition clear :: "model \<Rightarrow> model" where
  "clear m = (clear_synapses (clear_stimuli (clear_records m)))\<lparr>sections := [], sections_is_array := False\<rparr>"

subsection \<open>Mechanisms and section properties\<close>

text \<open>\<open>if not subset:\<close> holds for \<open>None\<close> and for the empty list.\<close>

definition subset_falsy :: "int list option \<Rightarrow> bool" where
  "subset_falsy sub = (case sub of None \<Rightarrow> True | Some ixs \<Rightarrow> ixs = [])"

text \<open>
  \<open>self.sections[subset]\<close>: numpy's indexing with a list of integers counts negative
  indices from the end and raises \<open>IndexError\<close> out of range; a plain list cannot be
  indexed with a list (\<open>TypeError\<close>).
\<close>

definition fancy_index :: "nat \<Rightarrow> int \<Rightarrow> error + nat" where
  "fancy_index len i =
     (let j = (if i < 0 then int len + i else i)
      in if 0 \<le> j \<and> j < int len then Inr (nat j) else Inl IndexError)"

definition select_sections :: "model \<Rightarrow> int list option \<Rightarrow> error + nat list" where
  "select_sections m sub =
     (if subset_falsy sub then Inr [0 ..< length (sections m)]
      else if \<not> sections_is_array m then Inl TypeError
      else collect (map (fancy_index (length (sections m))) (the sub)))"

text \<open>
  NEURON's \<open>sec.insert(name)\<close>: a name that is no density mechanism raises
  \<open>ValueError\<close>; a mechanism that the section has already is left as it is; a new one
  gets an instance, with NEURON's defaults, on each of the \<open>nseg\<close> segments.
\<close>

definition section_insert :: "engine \<Rightarrow> string \<Rightarrow> nrn_section \<Rightarrow> error + nrn_section" where
  "section_insert E mech s =
     (if \<not> density_mech E mech then Inl (ValueError ''argument not a density mechanism name.'')
      else
        (case map_of (sec_mechs s) mech of
           Some pss \<Rightarrow> Inr s
         | None \<Rightarrow> Inr (s\<lparr>sec_mechs := sec_mechs s @ [(mech, replicate (nat (sec_nseg s)) [])]\<rparr>)))"

text \<open>
  \<open>for k, v in kwargs.items(): setattr(mech, k, v)\<close> on the mechanism of one segment:
  a name that is no parameter of the mechanism raises \<open>AttributeError\<close>, after the
  keywords before it have been set.
\<close>

fun setattr_loop ::
  "engine \<Rightarrow> string \<Rightarrow> (string \<times> rat) list \<Rightarrow> (string \<times> rat) list \<Rightarrow>
     error option \<times> (string \<times> rat) list" where
  "setattr_loop E mech [] ps = (None, ps)"
| "setattr_loop E mech ((k, v) # kwargs) ps =
     (if \<not> mech_param E mech k then (Some AttributeError, ps)
      else setattr_loop E mech kwargs (AList.update k v ps))"

text \<open>\<open>for seg in sec: ...\<close>: the segments of one section, in order.\<close>

fun segments_loop ::
  "engine \<Rightarrow> string \<Rightarrow> (string \<times> rat) list \<Rightarrow> (string \<times> rat) list list \<Rightarrow>
     error option \<times> (string \<times> rat) list list" where
  "segments_loop E mech kwargs [] = (None, [])"
| "segments_loop E mech kwargs (ps # pss) =
     (case setattr_loop E mech kwargs ps of
        (Some e, ps') \<Rightarrow> (Some e, ps' # pss)
      | (None, ps') \<Rightarrow>
          (case segments_loop E mech kwargs pss of (r, pss') \<Rightarrow> (r, ps' # pss')))"

text \<open>The body of the loop of \<open>insert\<close> for one section.\<close>

definition sec_insert ::
  "engine \<Rightarrow> string \<Rightarrow> (string \<times> rat) list \<Rightarrow> nrn_section \<Rightarrow> error option \<times> nrn_section" where
  "sec_insert E mech kwargs s =
     (case section_insert E mech s of
        Inl e \<Rightarrow> (Some e, s)
      | Inr s1 \<Rightarrow>
          (case segments_loop E mech kwargs
                  (case map_of (sec_mechs s1) mech of None \<Rightarrow> [] | Some pss \<Rightarrow> pss) of
             (r, pss') \<Rightarrow> (r, s1\<lparr>sec_mechs := AList.update mech pss' (sec_mechs s1)\<rparr>)))"

fun insert_loop ::
  "engine \<Rightarrow> string \<Rightarrow> (string \<times> rat) list \<Rightarrow> nat list \<Rightarrow> model \<Rightarrow> error option \<times> model" where
  "insert_loop E mech kwargs [] m = (None, m)"
| "insert_loop E mech kwargs (i # ixs) m =
     (case sec_insert E mech kwargs (sections m ! i) of
        (Some e, s') \<Rightarrow> (Some e, m\<lparr>sections := (sections m)[i := s']\<rparr>)
      | (None, s') \<Rightarrow> insert_loop E mech kwargs ixs (m\<lparr>sections := (sections m)[i := s']\<rparr>))"

definition insert_mech ::
  "engine \<Rightarrow> string \<Rightarrow> int list option \<Rightarrow> (string \<times> rat) list \<Rightarrow> model \<Rightarrow> error option \<times> model" where
  "insert_mech E mech sub kwargs m =
     (case select_sections m sub of
        Inl e \<Rightarrow> (Some e, m)
      | Inr ixs \<Rightarrow> insert_loop E mech kwargs ixs m)"

text \<open>
  \<open>hasattr(sec, mechanism)\<close>. A density mechanism is no attribute of a Section object,
  inserted or not: it is an attribute of the section's segments (\<open>sec(0.5).pas\<close>). So
  \<open>hasattr\<close> is false for the name of a mechanism, and true only for the other names
  that the Section object has.
\<close>

definition hasattr_section :: "engine \<Rightarrow> nrn_section \<Rightarrow> string \<Rightarrow> bool" where
  "hasattr_section E s name = (\<not> density_mech E name \<and> sec_attr E s name)"

text \<open>
  NEURON's \<open>sec.uninsert(name)\<close>: a name that is no density mechanism raises
  \<open>ValueError\<close>; otherwise the mechanism is removed from the section, if it is there.
\<close>

definition section_uninsert :: "engine \<Rightarrow> string \<Rightarrow> nrn_section \<Rightarrow> error + nrn_section" where
  "section_uninsert E mech s =
     (if \<not> density_mech E mech then Inl (ValueError ''argument not a density mechanism name.'')
      else Inr (s\<lparr>sec_mechs := AList.delete mech (sec_mechs s)\<rparr>))"

text \<open>\<open>if hasattr(sec, mechanism): sec.uninsert(mechanism)\<close>\<close>

fun uninsert_loop :: "engine \<Rightarrow> string \<Rightarrow> nat list \<Rightarrow> model \<Rightarrow> error option \<times> model" where
  "uninsert_loop E mech [] m = (None, m)"
| "uninsert_loop E mech (i # ixs) m =
     (if hasattr_section E (sections m ! i) mech
      then
        (case section_uninsert E mech (sections m ! i) of
           Inl e \<Rightarrow> (Some e, m)
         | Inr s' \<Rightarrow> uninsert_loop E mech ixs (m\<lparr>sections := (sections m)[i := s']\<rparr>))
      else uninsert_loop E mech ixs m)"

definition uninsert :: "engine \<Rightarrow> string \<Rightarrow> int list option \<Rightarrow> model \<Rightarrow> error option \<times> model" where
  "uninsert E mech sub m =
     (case select_sections m sub of
        Inl e \<Rightarrow> (Some e, m)
      | Inr ixs \<Rightarrow> uninsert_loop E mech ixs m)"

text \<open>
  The setters of \<open>cm\<close> and \<open>Ra\<close> assign to every section in turn. NEURON raises
  \<open>ValueError\<close> for an axial resistance that is not positive, at the first section.
\<close>

definition set_cm :: "rat \<Rightarrow> model \<Rightarrow> model" where
  "set_cm v m = m\<lparr>sections := map (\<lambda>s. s\<lparr>sec_cm := v\<rparr>) (sections m)\<rparr>"

definition set_Ra :: "rat \<Rightarrow> model \<Rightarrow> error option \<times> model" where
  "set_Ra v m =
     (if sections m \<noteq> [] \<and> v \<le> 0 then (Some (ValueError ''Ra must be > 0.''), m)
      else (None, m\<lparr>sections := map (\<lambda>s. s\<lparr>sec_Ra := v\<rparr>) (sections m)\<rparr>))"

subsection \<open>A model's lifetime\<close>

text \<open>
  The calls a model receives after its construction. \<open>run_simulation\<close> and the plotting
  methods act on the engine and on the screen only; they leave the model as it is.
\<close>

datatype call =
    AddSynapticInput "int list" syn_params
  | InjectCurrentPulse "int list" rat rat rat
  | AddSynapticCurrent "int list" rat rat rat rat
  | AddStimulus stim_arg "int list" "(string \<times> rat) list"
  | AddVoltageRecord "int list" "string option"
  | AddCurrentRecord "int list" "string option"
  | AddRecord "int list" pyval "string option"
  | ClearRecords
  | ClearStimuli
  | ClearSynapses
  | Clear
  | Insert string "int list option" "(string \<times> rat) list"
  | Uninsert string "int list option"
  | SetCm rat
  | SetRa rat
  | RunSimulation rat rat

fun perform :: "engine \<Rightarrow> call \<Rightarrow> model \<Rightarrow> error option \<times> model" where
  "perform E (AddSynapticInput wh P) m = add_synaptic_input wh P m"
| "perform E (InjectCurrentPulse wh st d c) m = inject_current_pulse E wh st d c m"
| "perform E (AddSynapticCurrent wh st tau e g) m = add_synaptic_current E wh st tau e g m"
| "perform E (AddStimulus s wh kwargs) m = add_stimulus E s wh kwargs m"
| "perform E (AddVoltageRecord wh label) m = add_voltage_record E wh label m"
| "perform E (AddCurrentRecord wh label) m = add_current_record E wh label m"
| "perform E (AddRecord wh what label) m = add_record E wh what label m"
| "perform E ClearRecords m = (None, clear_records m)"
| "perform E ClearStimuli m = (None, clear_stimuli m)"
| "perform E ClearSynapses m = (None, clear_synapses m)"
| "perform E Clear m = (None, clear m)"
| "perform E (Insert mech sub kwargs) m = insert_mech E mech sub kwargs m"
| "perform E (Uninsert mech sub) m = uninsert E mech sub m"
| "perform E (SetCm v) m = (None, set_cm v m)"
| "perform E (SetRa v) m = set_Ra v m"
| "perform E (RunSimulation d v) m = (None, m)"

text \<open>A caller may catch an exception and go on using the model as the call left it.\<close>

fun lifetime :: "engine \<Rightarrow> call list \<Rightarrow> model \<Rightarrow> model" where
  "lifetime E [] m = m"
| "lifetime E (c # cs) m = lifetime E cs (snd (perform E c m))"

subsection \<open>\<open>DrosophilaPN\<close>\<close>

text \<open>
  The subclass constructs the model, sets the axial resistance and the membrane capacity
  of every section and inserts the passive mechanism into every section.
\<close>

definition drosophila_pn :: "engine \<Rightarrow> skeleton \<Rightarrow> rat \<Rightarrow> error + model" where
  "drosophila_pn E sk r =
     (case construct sk r of
        Inl e \<Rightarrow> Inl e
      | Inr m \<Rightarrow>
          (case set_Ra (2661 / 10) m of
             (Some e, m1) \<Rightarrow> Inl e
           | (None, m1) \<Rightarrow>
               (case insert_mech E ''pas'' None [(''g'', 1 / 20800), (''e'', - 60)]
                       (set_cm (8 / 10) m1) of
                  (Some e, m2) \<Rightarrow> Inl e
                | (None, m2) \<Rightarrow> Inr m2)))"

section \<open>Notions used in the statements\<close>

text \<open>The three registries of a model.\<close>

definition registries ::
  "model \<Rightarrow> (rkey \<times> nat) list \<times> (int \<times> nat list) list \<times> (int \<times> nat list) list" where
  "registries m = (records m, stimuli m, synapses m)"

text \<open>The recorder that a successful \<open>_add_record\<close> creates for a node.\<close>

definition recorder_at :: "model \<Rightarrow> string \<Rightarrow> int \<Rightarrow> hobj" where
  "recorder_at m w n =
     (case location m n of Inr (i, x) \<Rightarrow> Vector (Some (i, x, w)) | Inl e \<Rightarrow> Vector None)"

text \<open>
  What the loop of \<open>_add_record\<close> does to the registry: the node visited \<open>j\<close>-th gets the
  reference \<open>h + j\<close>, stored under the key of the node.
\<close>

fun store_all :: "string option \<Rightarrow> nat \<Rightarrow> int list \<Rightarrow> (rkey \<times> nat) list \<Rightarrow> (rkey \<times> nat) list" where
  "store_all label h [] al = al"
| "store_all label h (n # ns) al =
     store_all label (Suc h) ns (AList.update (record_key label n) h al)"

fun is_NetStim :: "hobj \<Rightarrow> bool" where
  "is_NetStim (NetStim a) = True"
| "is_NetStim ob = False"

text \<open>The spike generator that a connector references.\<close>

fun generator_of :: "hobj \<Rightarrow> nat option" where
  "generator_of (NetCon s t a) = Some s"
| "generator_of ob = None"

text \<open>
  The targets that the loop of \<open>add_synaptic_input\<close> works through before it returns or
  raises: none when \<open>nodes.loc[where]\<close> raises, else the targets before the first one
  whose Section lookup raises.
\<close>

definition located :: "model \<Rightarrow> int \<Rightarrow> bool" where
  "located m n = (case location m n of Inr ix \<Rightarrow> True | Inl e \<Rightarrow> False)"

definition reached :: "model \<Rightarrow> int list \<Rightarrow> int list" where
  "reached m wh = (if loc_fails m wh then [] else takeWhile (located m) wh)"

text \<open>
  The synapse that the loop creates at a node, and the connector from the generator
  \<open>stim\<close> to the synapse \<open>syn\<close>.
\<close>

definition synapse_at :: "syn_params \<Rightarrow> model \<Rightarrow> int \<Rightarrow> hobj" where
  "synapse_at P m n =
     (case location m n of
        Inr (i, x) \<Rightarrow>
          PointProcess ''Exp2Syn'' i x
            [(''tau1'', syn_tau1 P), (''tau2'', syn_tau2 P),
             (''e'', syn_rev_pot P), (''i'', syn_curr P)]
      | Inl e \<Rightarrow> Vector None)"

definition connector :: "syn_params \<Rightarrow> nat \<Rightarrow> nat \<Rightarrow> hobj" where
  "connector P stim syn =
     NetCon stim syn
       [(''threshold'', cn_thresh P), (''delay'', cn_delay P), (''weight[0]'', cn_weight P)]"

subsection \<open>Concrete inputs\<close>

definition mk_row :: "int \<Rightarrow> int option \<Rightarrow> rat \<Rightarrow> rat \<Rightarrow> node_row" where
  "mk_row n p r d = \<lparr>node_id = n, parent_id = p, radius = Fin r, parent_dist = d\<rparr>"

text \<open>
  A skeleton with root 1, branch point 2, the leaf 3 below it, and the chain 2, 4, 5
  ending in the leaf 5.
\<close>

definition demo_skeleton :: skeleton where
  "demo_skeleton =
     \<lparr>nodes = [mk_row 1 None 1 0, mk_row 2 (Some 1) 1 2, mk_row 3 (Some 2) 1 1,
               mk_row 4 (Some 2) 1 3, mk_row 5 (Some 4) 1 1],
      columns = [''node_id'', ''parent_id'', ''radius''],
      units = None\<rparr>"

definition new_section :: "nat \<Rightarrow> rat \<Rightarrow> int \<Rightarrow> (nat \<times> rat) option \<Rightarrow> nrn_section" where
  "new_section i len n p =
     \<lparr>sec_name = i, sec_L = len, sec_diam = Fin 2, sec_nseg = n, sec_parent = p,
      sec_Ra = 354 / 10, sec_cm = 1, sec_mechs = []\<rparr>"

definition demo_model :: model where
  "demo_model =
     \<lparr>skeleton = demo_skeleton, res = 1,
      node2sec = [(1, 0), (2, 0), (3, 1), (4, 2), (5, 2)],
      node2pos = [(1, Fin 0), (2, Fin 1), (3, Fin 1), (4, Fin (3 / 4)), (5, Fin 1)],
      sections = [new_section 0 2 3 None, new_section 1 1 1 (Some (0, 1)),
                  new_section 2 4 5 (Some (0, 1))],
      sections_is_array = True,
      stimuli = [], records = [], synapses = [], hoc = []\<rparr>"

text \<open>
  An engine that knows the membrane potential, the classes the module uses, the passive
  and the Hodgkin-Huxley mechanism with the parameters of the passive one, and the
  attributes of a Section object that the module assigns.
\<close>

definition demo_engine :: engine where
  "demo_engine =
     \<lparr>h_class = (\<lambda>c. c \<in> set [''IClamp'', ''AlphaSynapse'', ''Exp2Syn'', ''NetStim'', ''NetCon'']),
      seg_attr = (\<lambda>s w. w = ''_ref_v''),
      density_mech = (\<lambda>c. c \<in> set [''pas'', ''hh'']),
      mech_param = (\<lambda>c k. c = ''pas'' \<and> k \<in> set [''g'', ''e'']),
      sec_attr = (\<lambda>s a. a \<in> set [''L'', ''diam'', ''nseg'', ''Ra'', ''cm''])\<rparr>"

definition demo_params :: syn_params where
  "demo_params =
     \<lparr>start = 5, spike_no = 1, spike_int = 10, spike_noise = 0, syn_tau1 = 1 / 10,
      syn_tau2 = 10, syn_rev_pot = 0, syn_curr = 1 / 10, cn_thresh = 10, cn_delay = 1,
      cn_weight = 0\<rparr>"

text \<open>The demonstration model after one, and after two, unlabelled recordings at node 3.\<close>

definition demo_once :: model where
  "demo_once = snd (add_voltage_record demo_engine [3] None demo_model)"

definition demo_twice :: model where
  "demo_twice = snd (add_voltage_record demo_engine [3] None demo_once)"

definition demo_labelled :: model where
  "demo_labelled = snd (add_record demo_engine [3, 5] (PStr ''v'') (Some ''soma'') demo_once)"

definition demo_input :: model where
  "demo_input = snd (add_synaptic_input [3, 5, 3] demo_params demo_model)"

subsection \<open>Tree-shaped skeletons\<close>

text \<open>
  The number of parent links between a node and its root, when at most \<open>k\<close> links lead
  there.
\<close>

fun depth :: "skeleton \<Rightarrow> nat \<Rightarrow> int \<Rightarrow> nat option" where
  "depth sk 0 n = (case parent sk n of None \<Rightarrow> Some 0 | Some p \<Rightarrow> None)"
| "depth sk (Suc k) n =
     (case parent sk n of None \<Rightarrow> Some 0 | Some p \<Rightarrow> map_option Suc (depth sk k p))"

text \<open>
  The caller's guarantee of section 4.2 of the specification (tree-shaped input, no cycle,
  one parent per node): the node ids are unique, every parent is a node of the table, and
  the parent links of every node lead to a root.
\<close>

definition tree_shaped :: "skeleton \<Rightarrow> bool" where
  "tree_shaped sk =
     (distinct (node_ids sk)
      \<and> (\<forall>row \<in> set (nodes sk).
            case parent_id row of None \<Rightarrow> True | Some p \<Rightarrow> p \<in> set (node_ids sk))
      \<and> (\<forall>n \<in> set (node_ids sk). depth sk (length (nodes sk)) n \<noteq> None))"

text \<open>
  A chain as section 4.2 describes it, read child to parent: parent links from a first
  node up to the first node that is a root or a branch point.
\<close>

inductive chain :: "skeleton \<Rightarrow> int list \<Rightarrow> bool" for sk where
  chain_stop: "parent sk n = Some p \<Longrightarrow> is_stop sk p \<Longrightarrow> chain sk [n, p]"
| chain_step: "parent sk n = Some p \<Longrightarrow> \<not> is_stop sk p \<Longrightarrow> chain sk (p # xs) \<Longrightarrow> chain sk (n # p # xs)"

text \<open>
  On a chain, what \<open>segment_positions\<close> computes: the distances child to parent, the nodes
  that the segment maps and their positions.
\<close>

definition dists :: "skeleton \<Rightarrow> int list \<Rightarrow> rat list" where
  "dists sk seg =
     map (\<lambda>c. case lookup_row sk c of None \<Rightarrow> 0 | Some row \<Rightarrow> parent_dist row) (butlast seg)"

definition kept_pos :: "skeleton \<Rightarrow> int list \<Rightarrow> npfloat list" where
  "kept_pos sk seg =
     (if last seg \<in> set (roots sk) then norm_pos (dists sk seg) else tl (norm_pos (dists sk seg)))"

definition kept :: "skeleton \<Rightarrow> int list \<Rightarrow> int list" where
  "kept sk seg = (if last seg \<in> set (roots sk) then rev seg else tl (rev seg))"

subsection \<open>More concrete inputs\<close>

text \<open>The Y-shaped skeleton: root 1, branch point 2, leaves 3 and 4.\<close>

definition y_skeleton :: skeleton where
  "y_skeleton =
     \<lparr>nodes = [mk_row 1 None 1 0, mk_row 2 (Some 1) 1 2, mk_row 3 (Some 2) 1 1,
               mk_row 4 (Some 2) 1 3],
      columns = [''node_id'', ''parent_id'', ''radius''],
      units = None\<rparr>"

definition y_model :: model where
  "y_model =
     \<lparr>skeleton = y_skeleton, res = 1,
      node2sec = [(1, 0), (2, 0), (3, 1), (4, 2)],
      node2pos = [(1, Fin 0), (2, Fin 1), (3, Fin 1), (4, Fin 1)],
      sections = [new_section 0 2 3 None, new_section 1 1 1 (Some (0, 1)),
                  new_section 2 3 3 (Some (0, 1))],
      sections_is_array = True,
      stimuli = [], records = [], synapses = [], hoc = []\<rparr>"

text \<open>The same Y, but the branch point lies on the root: the edge between them has length 0.\<close>

definition flat_y_skeleton :: skeleton where
  "flat_y_skeleton =
     \<lparr>nodes = [mk_row 1 None 1 0, mk_row 2 (Some 1) 1 0, mk_row 3 (Some 2) 1 1,
               mk_row 4 (Some 2) 1 3],
      columns = [''node_id'', ''parent_id'', ''radius''],
      units = None\<rparr>"

text \<open>A skeleton of one node.\<close>

definition lone_skeleton :: skeleton where
  "lone_skeleton =
     \<lparr>nodes = [mk_row 1 None 1 0],
      columns = [''node_id'', ''parent_id'', ''radius''],
      units = None\<rparr>"

definition lone_model :: model where
  "lone_model =
     \<lparr>skeleton = lone_skeleton, res = 1, node2sec = [], node2pos = [], sections = [],
      sections_is_array = True, stimuli = [], records = [], synapses = [], hoc = []\<rparr>"

text \<open>
  Two fragments: the root 1 with its leaf 2, and the root 3 without a child. The same
  with the Y-shaped skeleton as the first fragment.
\<close>

definition stray_skeleton :: skeleton where
  "stray_skeleton =
     \<lparr>nodes = [mk_row 1 None 1 0, mk_row 2 (Some 1) 1 2, mk_row 3 None 1 0],
      columns = [''node_id'', ''parent_id'', ''radius''],
      units = None\<rparr>"

definition stray_model :: model where
  "stray_model =
     \<lparr>skeleton = stray_skeleton, res = 1,
      node2sec = [(1, 0), (2, 0)], node2pos = [(1, Fin 0), (2, Fin 1)],
      sections = [new_section 0 2 3 None],
      sections_is_array = True, stimuli = [], records = [], synapses = [], hoc = []\<rparr>"

definition stray_y_skeleton :: skeleton where
  "stray_y_skeleton =
     \<lparr>nodes = [mk_row 1 None 1 0, mk_row 2 (Some 1) 1 2, mk_row 3 (Some 2) 1 1,
               mk_row 4 (Some 2) 1 3, mk_row 5 None 1 0],
      columns = [''node_id'', ''parent_id'', ''radius''],
      units = None\<rparr>"

text \<open>A root and a leaf at the same place: the only edge has length 0.\<close>

definition flat_skeleton :: skeleton where
  "flat_skeleton =
     \<lparr>nodes = [mk_row 1 None 1 0, mk_row 2 (Some 1) 1 0],
      columns = [''node_id'', ''parent_id'', ''radius''],
      units = None\<rparr>"





text \<open>
  The demonstration model with the passive mechanism inserted by
  \<open>insert('pas', subset=[], g=1/20800, e=-60)\<close>.
\<close>

definition pas_model :: model where
  "pas_model =
     snd (insert_mech demo_engine ''pas'' (Some []) [(''g'', 1 / 20800), (''e'', - 60)] demo_model)"

text \<open>The location columns and the skeleton copy are the same in two models.\<close>

definition same_locations :: "model \<Rightarrow> model \<Rightarrow> bool" where
  "same_locations m m' =
     (node2sec m' = node2sec m \<and> node2pos m' = node2pos m \<and> skeleton m' = skeleton m)"


text \<open>A target that is a node of the table but has no entry in \<open>node2sec\<close>.\<close>

definition unlocated :: "model \<Rightarrow> int list \<Rightarrow> bool" where
  "unlocated m wh = (\<exists>n \<in> set wh. map_of (node2sec m) n = None)"

text \<open>Every reference in the records registry denotes an object that exists.\<close>

definition records_refer :: "model \<Rightarrow> bool" where
  "records_refer m = (\<forall>h \<in> snd ` set (records m). h < length (hoc m))"

section \<open>Properties of the recorders\<close>

lemma location_hoc_records [simp]:
  "location (m\<lparr>hoc := h, records := r\<rparr>) n = location m n"
  by (simp add: location_def split: option.splits)

lemma record_loop_ok:
  "record_loop E w label ns m = (None, m') \<Longrightarrow>
     m' = m\<lparr>hoc := hoc m @ map (recorder_at m w) ns,
            records := store_all label (length (hoc m)) ns (records m)\<rparr>"
proof (induction ns arbitrary: m)
  case Nil
  then show ?case by simp
next
  case (Cons n ns)
  from Cons.prems obtain i x where loc: "location m n = Inr (i, x)"
    by (auto split: sum.splits)
  let ?m3 = "m\<lparr>hoc := hoc m @ [Vector (Some (i, x, w))],
               records := AList.update (record_key label n) (length (hoc m)) (records m)\<rparr>"
  from Cons.prems loc have rest: "record_loop E w label ns ?m3 = (None, m')"
    by (auto simp: Let_def new_ref_def create_def split: if_splits)
  have rec': "recorder_at ?m3 w = recorder_at m w"
    by (rule ext) (simp add: recorder_at_def)
  show ?case
    using Cons.IH [OF rest] loc
    by (simp add: rec') (simp add: recorder_at_def)
qed

lemma add_record_ok:
  assumes "add_record E wh what label m = (None, m')"
  shows "\<exists>w. what = PStr w \<and> \<not> loc_fails m wh \<and>
     m' = m\<lparr>hoc := hoc m @ map (recorder_at m (ref_name w)) wh,
            records := store_all label (length (hoc m)) wh (records m)\<rparr>"
proof (cases what)
  case (PStr w)
  with assms have nf: "\<not> loc_fails m wh" and loop: "record_loop E (ref_name w) label wh m = (None, m')"
    by (auto simp: add_record_def split: if_splits)
  from record_loop_ok [OF loop] nf PStr show ?thesis by simp
qed (use assms in \<open>auto simp: add_record_def\<close>)

lemma store_all_label:
  "label_given label \<Longrightarrow> ns \<noteq> [] \<Longrightarrow>
   store_all label h ns al = AList.update (KLabel (the label)) (h + length ns - 1) al"
proof (induction ns arbitrary: h al)
  case Nil
  then show ?case by simp
next
  case (Cons n ns)
  show ?case
  proof (cases "ns = []")
    case True
    with Cons.prems show ?thesis by (simp add: record_key_def)
  next
    case False
    with Cons.IH [OF Cons.prems(1) False, of "Suc h"] Cons.prems(1)
    show ?thesis by (simp add: record_key_def)
  qed
qed

lemma store_all_other:
  "k \<notin> record_key label ` set ns \<Longrightarrow> map_of (store_all label h ns al) k = map_of al k"
  by (induction ns arbitrary: h al) (auto simp: update_conv')

lemma store_all_node:
  "\<not> label_given label \<Longrightarrow> n \<in> set ns \<Longrightarrow>
   \<exists>j < length ns. ns ! j = n \<and> (\<forall>j' < length ns. j < j' \<longrightarrow> ns ! j' \<noteq> n) \<and> map_of (store_all label h ns al) (KNode n) = Some (h + j)"
proof (induction ns arbitrary: h al)
  case Nil
  then show ?case by simp
next
  case (Cons a ns)
  show ?case
  proof (cases "n \<in> set ns")
    case True
    from Cons.IH [OF Cons.prems(1) True, of "Suc h" "AList.update (record_key label a) h al"]
    obtain j where j: "j < length ns" "ns ! j = n" "\<forall>j' < length ns. j < j' \<longrightarrow> ns ! j' \<noteq> n"
      "map_of (store_all label (Suc h) ns (AList.update (record_key label a) h al)) (KNode n) = Some (Suc h + j)"
      by blast
    show ?thesis
      apply (rule exI [of _ "Suc j"])
      using j by (auto simp: less_Suc_eq_0_disj)
  next
    case False
    with Cons.prems have an: "a = n" by simp
    from False Cons.prems(1) have "KNode n \<notin> record_key label ` set ns"
      by (auto simp: record_key_def)
    then have "map_of (store_all label (Suc h) ns (AList.update (record_key label a) h al)) (KNode n)
       = map_of (AList.update (record_key label a) h al) (KNode n)"
      by (rule store_all_other)
    with an Cons.prems(1) have "map_of (store_all label h (a # ns) al) (KNode n) = Some (h + 0)"
      by (simp add: update_conv' record_key_def)
    moreover from False have "\<forall>j' < length (a # ns). 0 < j' \<longrightarrow> (a # ns) ! j' \<noteq> n"
      by (auto simp: less_Suc_eq_0_disj)
    ultimately show ?thesis using an by (intro exI [of _ 0]) simp
  qed
qed

lemma update_values: "snd ` set (AList.update k v al) \<subseteq> snd ` set al \<union> {v}"
  by (induction al) auto

text \<open>
  Claim C1, as the code has it. A successful \<open>_add_record\<close> (and so a successful
  \<open>add_voltage_record\<close> or \<open>add_current_record\<close>) creates one recorder per target, in
  the order of \<open>where\<close>. With a label that is not empty the registry holds, under the
  label, the recorder created last, whatever was stored there before. With no label (or
  the empty one) the registry holds, under each targeted node id, the one recorder
  created for the last occurrence of that id: an assignment, not a list that grows.
  Keys that the call does not address keep their recorder.
\<close>

theorem add_record_replaces:
  assumes "add_record E wh (PStr w) label m = (None, m')"
  shows "length (hoc m') = length (hoc m) + length wh
     \<and> (\<forall>j < length wh. hoc m' ! (length (hoc m) + j) = recorder_at m (ref_name w) (wh ! j))
     \<and> (label_given label \<and> wh \<noteq> [] \<longrightarrow>
          map_of (records m') (KLabel (the label)) = Some (length (hoc m) + length wh - 1))
     \<and> (\<not> label_given label \<longrightarrow>
          (\<forall>n \<in> set wh. \<exists>j < length wh. wh ! j = n \<and> (\<forall>j' < length wh. j < j' \<longrightarrow> wh ! j' \<noteq> n)
              \<and> map_of (records m') (KNode n) = Some (length (hoc m) + j)))
     \<and> (\<forall>k. k \<notin> record_key label ` set wh \<longrightarrow> map_of (records m') k = map_of (records m) k)"
proof -
  from add_record_ok [OF assms]
  have m': "m' = m\<lparr>hoc := hoc m @ map (recorder_at m (ref_name w)) wh,
            records := store_all label (length (hoc m)) wh (records m)\<rparr>"
    by simp
  have 1: "length (hoc m') = length (hoc m) + length wh"
    by (simp add: m')
  have 2: "\<forall>j < length wh. hoc m' ! (length (hoc m) + j) = recorder_at m (ref_name w) (wh ! j)"
    by (simp add: m')
  have 3: "label_given label \<and> wh \<noteq> [] \<longrightarrow>
          map_of (records m') (KLabel (the label)) = Some (length (hoc m) + length wh - 1)"
    by (simp add: m' store_all_label update_conv')
  have 4: "\<not> label_given label \<longrightarrow>
          (\<forall>n \<in> set wh. \<exists>j < length wh. wh ! j = n \<and> (\<forall>j' < length wh. j < j' \<longrightarrow> wh ! j' \<noteq> n)
              \<and> map_of (records m') (KNode n) = Some (length (hoc m) + j))"
    using store_all_node [of label _ wh "length (hoc m)" "records m"] by (simp add: m')
  have 5: "\<forall>k. k \<notin> record_key label ` set wh \<longrightarrow> map_of (records m') k = map_of (records m) k"
    using store_all_other [of _ label wh "length (hoc m)" "records m"] by (simp add: m')
  from 1 2 3 4 5 show ?thesis by blast
qed

text \<open>
  Claim C1 as stated fails: two unlabelled recordings at node 3 leave one recorder under
  the key 3, the second one; the first (reference 0) is no longer in the registry.
\<close>

theorem repeated_records_replace:
  "fst (add_voltage_record demo_engine [3] None demo_model) = None
   \<and> fst (add_voltage_record demo_engine [3] None demo_once) = None
   \<and> records demo_once = [(KNode 3, 0)]
   \<and> records demo_twice = [(KNode 3, 1)]
   \<and> 0 \<notin> snd ` set (records demo_twice)"
  by code_simp

theorem add_record_replaces_witness:
  "add_record demo_engine [3, 5, 3] (PStr ''v'') None demo_model
     = (None, snd (add_record demo_engine [3, 5, 3] (PStr ''v'') None demo_model))
   \<and> length (hoc (snd (add_record demo_engine [3, 5, 3] (PStr ''v'') None demo_model))) = 3
   \<and> map_of (records (snd (add_record demo_engine [3, 5, 3] (PStr ''v'') None demo_model))) (KNode 3) = Some 2
   \<and> map_of (records (snd (add_record demo_engine [3, 5, 3] (PStr ''v'') None demo_model))) (KNode 4) = None"
proof -
  let ?m' = "snd (add_record demo_engine [3, 5, 3] (PStr ''v'') None demo_model)"
  have run: "add_record demo_engine [3, 5, 3] (PStr ''v'') None demo_model = (None, ?m')"
    by code_simp
  have h0: "length (hoc demo_model) = 0" "map_of (records demo_model) (KNode 4) = None"
    "KNode 4 \<notin> record_key None ` set [3, 5, 3]"
    by (simp_all add: demo_model_def record_key_def label_given_def)
  have nl: "\<not> label_given None" by (simp add: label_given_def)
  from add_record_replaces [OF run] h0 nl
  have "length (hoc ?m') = 3" and "map_of (records ?m') (KNode 4) = None"
    and "\<exists>j<length [3, 5, 3 :: int]. [3, 5, 3 :: int] ! j = 3 \<and>
           (\<forall>j'<length [3, 5, 3 :: int]. j < j' \<longrightarrow> [3, 5, 3 :: int] ! j' \<noteq> 3) \<and>
           map_of (records ?m') (KNode 3) = Some (0 + j)"
    by simp_all
  moreover have "j = 2" if "j < length [3, 5, 3 :: int]" "[3, 5, 3 :: int] ! j = 3"
     "\<forall>j'<length [3, 5, 3 :: int]. j < j' \<longrightarrow> [3, 5, 3 :: int] ! j' \<noteq> 3" for j
    using that by (auto simp: less_Suc_eq numeral_3_eq_3)
  ultimately show ?thesis using run by auto
qed

text \<open>
  Claim C10. A successful record-adding call with a label that is not empty and at least
  two targets leaves the registry as it was but for the label, under which the recorder
  of the last target is stored; the recorders created for the earlier targets exist in
  NEURON but no entry of the registry refers to them. (The registry is assumed to refer to
  existing objects only.)
\<close>

theorem labelled_batch_keeps_last:
  assumes "add_record E wh (PStr w) (Some l) m = (None, m')"
    and "l \<noteq> []" and "2 \<le> length wh"
    and "\<forall>h \<in> snd ` set (records m). h < length (hoc m)"
  shows "records m' = AList.update (KLabel l) (length (hoc m) + length wh - 1) (records m)
     \<and> hoc m' ! (length (hoc m) + length wh - 1) = recorder_at m (ref_name w) (last wh)
     \<and> (\<forall>j < length wh - 1.
          hoc m' ! (length (hoc m) + j) = recorder_at m (ref_name w) (wh ! j)
          \<and> length (hoc m) + j \<notin> snd ` set (records m'))"
proof -
  from assms(3) have ne: "wh \<noteq> []" by auto
  from assms(2) have lg: "label_given (Some l)" by (simp add: label_given_def)
  from add_record_ok [OF assms(1)]
  have m': "m' = m\<lparr>hoc := hoc m @ map (recorder_at m (ref_name w)) wh,
            records := store_all (Some l) (length (hoc m)) wh (records m)\<rparr>"
    by simp
  have recs: "records m' = AList.update (KLabel l) (length (hoc m) + length wh - 1) (records m)"
    using store_all_label [OF lg ne] by (simp add: m')
  have lastv: "hoc m' ! (length (hoc m) + length wh - 1) = recorder_at m (ref_name w) (last wh)"
  proof -
    from ne have "length (hoc m) + length wh - 1 = length (hoc m) + (length wh - 1)"
      by (cases wh) auto
    with ne show ?thesis
      by (simp add: m' last_conv_nth)
  qed
  have early: "\<forall>j < length wh - 1.
          hoc m' ! (length (hoc m) + j) = recorder_at m (ref_name w) (wh ! j)
          \<and> length (hoc m) + j \<notin> snd ` set (records m')"
  proof (intro allI impI conjI)
    fix j assume j: "j < length wh - 1"
    then show "hoc m' ! (length (hoc m) + j) = recorder_at m (ref_name w) (wh ! j)"
      by (simp add: m')
    show "length (hoc m) + j \<notin> snd ` set (records m')"
    proof
      assume "length (hoc m) + j \<in> snd ` set (records m')"
      with update_values [of "KLabel l" "length (hoc m) + length wh - 1" "records m"] recs
      have "length (hoc m) + j \<in> snd ` set (records m) \<or> length (hoc m) + j = length (hoc m) + length wh - 1"
        by auto
      with assms(4) j show False by auto
    qed
  qed
  from recs lastv early show ?thesis by blast
qed

theorem labelled_batch_keeps_last_witness:
  "add_record demo_engine [3, 5] (PStr ''v'') (Some ''soma'') demo_once = (None, demo_labelled)
   \<and> records demo_once = [(KNode 3, 0)]
   \<and> records demo_labelled = [(KNode 3, 0), (KLabel ''soma'', 2)]
   \<and> hoc demo_labelled ! 2 = Vector (Some (2, Fin 1, ''_ref_v''))
   \<and> hoc demo_labelled ! 1 = Vector (Some (1, Fin 1, ''_ref_v''))
   \<and> 1 \<notin> snd ` set (records demo_labelled)"
proof -
  have run: "add_record demo_engine [3, 5] (PStr ''v'') (Some ''soma'') demo_once = (None, demo_labelled)"
    by code_simp
  have once: "records demo_once = [(KNode 3, 0)]" "length (hoc demo_once) = 1"
    by code_simp+
  have wf: "\<forall>h \<in> snd ` set (records demo_once). h < length (hoc demo_once)"
    by (simp add: once)
  have locs: "recorder_at demo_once (ref_name ''v'') 5 = Vector (Some (2, Fin 1, ''_ref_v''))"
    "recorder_at demo_once (ref_name ''v'') 3 = Vector (Some (1, Fin 1, ''_ref_v''))"
    by code_simp+
  have inst: "records demo_labelled = AList.update (KLabel ''soma'') (length (hoc demo_once) + length [3, 5 :: int] - 1) (records demo_once)
     \<and> hoc demo_labelled ! (length (hoc demo_once) + length [3, 5 :: int] - 1) = recorder_at demo_once (ref_name ''v'') (last [3, 5])
     \<and> (\<forall>j<length [3, 5 :: int] - 1.
      hoc demo_labelled ! (length (hoc demo_once) + j) = recorder_at demo_once (ref_name ''v'') ([3, 5] ! j) \<and>
      length (hoc demo_once) + j \<notin> snd ` set (records demo_labelled))"
    by (rule labelled_batch_keeps_last [OF run _ _ wf]) simp_all
  from inst have r: "records demo_labelled = [(KNode 3, 0), (KLabel ''soma'', 2)]"
    by (simp add: once numeral_2_eq_2)
  from inst have l: "hoc demo_labelled ! 2 = Vector (Some (2, Fin 1, ''_ref_v''))"
    by (simp add: once locs numeral_2_eq_2)
  from inst have "hoc demo_labelled ! (length (hoc demo_once) + 0) = recorder_at demo_once (ref_name ''v'') ([3, 5] ! 0) \<and>
      length (hoc demo_once) + 0 \<notin> snd ` set (records demo_labelled)"
    by (elim conjE allE [of _ 0]) simp
  then have e: "hoc demo_labelled ! 1 = Vector (Some (1, Fin 1, ''_ref_v''))" "1 \<notin> snd ` set (records demo_labelled)"
    by (simp_all add: once locs)
  from run once r l e show ?thesis by blast
qed

section \<open>Errors raised before the loop\<close>

lemma create_registries [simp]: "registries (create ob m) = registries m"
  by (simp add: registries_def create_def)

lemma float_index_everywhere:
  "\<not> loc_fails m wh \<Longrightarrow> unlocated m wh \<Longrightarrow> location m n = Inl IndexError"
proof -
  assume "\<not> loc_fails m wh" and "unlocated m wh"
  then have "sec_ix_is_float (skeleton m) (node2sec m)"
    unfolding loc_fails_def unlocated_def sec_ix_is_float_def by blast
  then show ?thesis by (simp add: location_def)
qed

lemma unlocated_create [simp]: "unlocated (create ob m) wh = unlocated m wh"
  by (simp add: unlocated_def create_def)

lemma loc_fails_create [simp]: "loc_fails (create ob m) wh = loc_fails m wh"
  by (simp add: loc_fails_def create_def)

lemma unlocated_nonempty: "unlocated m wh \<Longrightarrow> wh \<noteq> []"
  by (auto simp: unlocated_def)

lemma record_loop_unlocated:
  "\<not> loc_fails m wh \<Longrightarrow> unlocated m wh \<Longrightarrow> record_loop E w label wh m = (Some IndexError, m)"
  using float_index_everywhere [of m wh] unlocated_nonempty [of m wh]
  by (cases wh) simp_all

lemma stimulus_loop_unlocated:
  "\<not> loc_fails m wh \<Longrightarrow> unlocated m wh \<Longrightarrow> stimulus_loop c kwargs wh m = (Some IndexError, m)"
  using float_index_everywhere [of m wh] unlocated_nonempty [of m wh]
  by (cases wh) simp_all

lemma synaptic_loop_unlocated:
  "\<not> loc_fails m wh \<Longrightarrow> unlocated m wh \<Longrightarrow> synaptic_loop P stim wh m = (Some IndexError, m)"
  using float_index_everywhere [of m wh] unlocated_nonempty [of m wh]
  by (cases wh) simp_all

lemma add_record_early:
  assumes "loc_fails m wh \<or> unlocated m wh \<or> (\<forall>w. what \<noteq> PStr w)"
  shows "fst (add_record E wh what label m) \<in> {Some KeyError, Some IndexError, Some TypeError}
     \<and> snd (add_record E wh what label m) = m"
proof (cases what)
  case (PStr w)
  with assms have a: "loc_fails m wh \<or> unlocated m wh" by simp
  show ?thesis
  proof (cases "loc_fails m wh")
    case True
    with PStr show ?thesis by (simp add: add_record_def)
  next
    case False
    with a have "unlocated m wh" by simp
    from record_loop_unlocated [OF False this] False PStr show ?thesis
      by (simp add: add_record_def)
  qed
qed (simp_all add: add_record_def)

lemma add_stimulus_early:
  assumes "loc_fails m wh \<or> unlocated m wh"
  shows "fst (add_stimulus E s wh kwargs m) \<in> {Some KeyError, Some IndexError, Some LookupError}
     \<and> snd (add_stimulus E s wh kwargs m) = m"
proof (cases "loc_fails m wh")
  case True
  then show ?thesis by (simp add: add_stimulus_def split: stim_arg.splits)
next
  case False
  with assms have "unlocated m wh" by simp
  from stimulus_loop_unlocated [OF False this] False show ?thesis
    by (simp add: add_stimulus_def split: stim_arg.splits)
qed

lemma add_synaptic_input_early:
  assumes "loc_fails m wh \<or> unlocated m wh"
  shows "fst (add_synaptic_input wh P m) \<in> {Some KeyError, Some IndexError}
     \<and> registries (snd (add_synaptic_input wh P m)) = registries m"
proof (cases "loc_fails m wh")
  case True
  then show ?thesis by (simp add: add_synaptic_input_def Let_def)
next
  case False
  let ?m1 = "create (NetStim [(''number'', spike_no P), (''start'', start P),
                  (''noise'', spike_noise P), (''interval'', spike_int P)]) m"
  from False assms have "\<not> loc_fails ?m1 wh" "unlocated ?m1 wh" by simp_all
  from synaptic_loop_unlocated [OF this] False show ?thesis
    by (simp add: add_synaptic_input_def Let_def)
qed

text \<open>
  Claim C8. When a node id of \<open>where\<close> is not in the index of the node table
  (\<open>KeyError\<close> from \<open>nodes.loc\<close>), or is a node of the table without a location
  (\<open>IndexError\<close> at the first node visited, the column \<open>sec_ix\<close> being a float column
  then), or the state variable given to \<open>_add_record\<close> is not a string (\<open>TypeError\<close>), the
  call raises before anything is stored: \<open>_add_record\<close>, \<open>_add_stimulus\<close> and their
  callers leave the model as it was, and \<open>add_synaptic_input\<close>, which has created its spike
  generator by then, leaves the three registries as they were.
\<close>

theorem early_errors_leave_registries:
  "((loc_fails m wh \<or> unlocated m wh \<or> (\<forall>w. what \<noteq> PStr w)) \<longrightarrow>
      fst (add_record E wh what label m) \<in> {Some KeyError, Some IndexError, Some TypeError}
      \<and> snd (add_record E wh what label m) = m)
   \<and> (loc_fails m wh \<or> unlocated m wh \<longrightarrow>
      fst (add_voltage_record E wh label m) \<in> {Some KeyError, Some IndexError, Some TypeError}
      \<and> snd (add_voltage_record E wh label m) = m
      \<and> fst (add_current_record E wh label m) \<in> {Some KeyError, Some IndexError, Some TypeError}
      \<and> snd (add_current_record E wh label m) = m)
   \<and> (loc_fails m wh \<or> unlocated m wh \<longrightarrow>
      fst (add_stimulus E s wh kwargs m) \<in> {Some KeyError, Some IndexError, Some LookupError}
      \<and> snd (add_stimulus E s wh kwargs m) = m
      \<and> fst (inject_current_pulse E wh st d c m) \<in> {Some KeyError, Some IndexError, Some LookupError}
      \<and> snd (inject_current_pulse E wh st d c m) = m
      \<and> fst (add_synaptic_current E wh st tau e g m) \<in> {Some KeyError, Some IndexError, Some LookupError}
      \<and> snd (add_synaptic_current E wh st tau e g m) = m)
   \<and> (loc_fails m wh \<or> unlocated m wh \<longrightarrow>
      fst (add_synaptic_input wh P m) \<in> {Some KeyError, Some IndexError}
      \<and> registries (snd (add_synaptic_input wh P m)) = registries m)"
  using add_record_early [of m wh what E label]
    add_record_early [of m wh "PStr ''v''" E label] add_record_early [of m wh "PStr ''i''" E label]
    add_stimulus_early [of m wh E s kwargs]
    add_stimulus_early [of m wh E "ByName ''IClamp''" "[(''delay'', st), (''dur'', d), (''i'', c)]"]
    add_stimulus_early [of m wh E "ByName ''AlphaSynapse''"
       "[(''onset'', st), (''tau'', tau), (''e'', e), (''gmax'', g)]"]
    add_synaptic_input_early [of m wh P]
  unfolding add_voltage_record_def add_current_record_def inject_current_pulse_def
    add_synaptic_current_def
  by blast

theorem early_errors_leave_registries_witness:
  "loc_fails demo_model [3, 99]
   \<and> snd (add_record demo_engine [3, 99] (PStr ''v'') None demo_model) = demo_model
   \<and> snd (add_record demo_engine [3] (PInt 7) None demo_model) = demo_model
   \<and> snd (add_stimulus demo_engine (ByName ''IClamp'') [3, 99] [] demo_model) = demo_model
   \<and> fst (add_synaptic_input [3, 99] demo_params demo_model) = Some KeyError
   \<and> registries (snd (add_synaptic_input [3, 99] demo_params demo_model)) = registries demo_model
   \<and> unlocated lone_model [1] \<and> fst (add_record demo_engine [1] (PStr ''v'') None lone_model) = Some IndexError
   \<and> snd (add_record demo_engine [1] (PStr ''v'') None lone_model) = lone_model"
proof -
  have lf: "loc_fails demo_model [3, 99]" "unlocated lone_model [1]"
    "fst (add_synaptic_input [3, 99] demo_params demo_model) = Some KeyError"
    "fst (add_record demo_engine [1] (PStr ''v'') None lone_model) = Some IndexError"
    by code_simp+
  from early_errors_leave_registries [of demo_model "[3, 99]" "PStr ''v''" demo_engine None "ByName ''IClamp''" "[]" 0 0 0 0 0 0 demo_params] lf(1)
  have 1: "snd (add_record demo_engine [3, 99] (PStr ''v'') None demo_model) = demo_model"
    "snd (add_stimulus demo_engine (ByName ''IClamp'') [3, 99] [] demo_model) = demo_model"
    "registries (snd (add_synaptic_input [3, 99] demo_params demo_model)) = registries demo_model"
    by blast+
  from early_errors_leave_registries [of demo_model "[3]" "PInt 7" demo_engine None "ByName ''IClamp''" "[]" 0 0 0 0 0 0 demo_params]
  have 2: "snd (add_record demo_engine [3] (PInt 7) None demo_model) = demo_model"
    by blast
  from early_errors_leave_registries [of lone_model "[1]" "PStr ''v''" demo_engine None "ByName ''IClamp''" "[]" 0 0 0 0 0 0 demo_params] lf(2)
  have 3: "snd (add_record demo_engine [1] (PStr ''v'') None lone_model) = lone_model"
    by blast
  from lf 1 2 3 show ?thesis by blast
qed

text \<open>For contrast: an error inside the loop leaves what the loop had stored.\<close>

lemma later_errors_keep_earlier_entries:
  "add_record (demo_engine\<lparr>seg_attr := (\<lambda>s w. sec_name s = 1)\<rparr>) [3, 5] (PStr ''v'') None demo_model
     = (Some AttributeError,
        demo_model\<lparr>records := [(KNode 3, 0)],
                    hoc := [Vector (Some (1, Fin 1, ''_ref_v'')), Vector None]\<rparr>)"
  by code_simp

section \<open>Mechanisms\<close>

lemma select_falsy:
  "subset_falsy sub \<Longrightarrow> select_sections m sub = Inr [0 ..< length (sections m)]"
  by (simp add: select_sections_def)

lemma setattr_loop_ok:
  "\<forall>k \<in> fst ` set kwargs. mech_param E mech k \<Longrightarrow>
     \<exists>ps'. setattr_loop E mech kwargs ps = (None, ps')
       \<and> (\<forall>k. map_of ps' k = (case map_of (rev kwargs) k of Some v \<Rightarrow> Some v | None \<Rightarrow> map_of ps k))"
proof (induction kwargs arbitrary: ps)
  case Nil
  then show ?case by simp
next
  case (Cons kv kwargs)
  obtain k v where kv: "kv = (k, v)" by (cases kv)
  from Cons.prems kv have k: "mech_param E mech k"
    and rest: "\<forall>k \<in> fst ` set kwargs. mech_param E mech k" by simp_all
  from Cons.IH [OF rest, of "AList.update k v ps"] obtain ps' where
    run: "setattr_loop E mech kwargs (AList.update k v ps) = (None, ps')"
    and val: "\<forall>k'. map_of ps' k' = (case map_of (rev kwargs) k' of Some v' \<Rightarrow> Some v'
                  | None \<Rightarrow> map_of (AList.update k v ps) k')"
    by blast
  have "map_of ps' k' = (case map_of (rev (kv # kwargs)) k' of Some v' \<Rightarrow> Some v' | None \<Rightarrow> map_of ps k')"
    for k'
    using val kv by (simp add: map_add_def update_conv' split: option.splits)
  with run k kv show ?case by simp
qed

lemma setattr_loop_bad:
  "k \<in> fst ` set kwargs \<Longrightarrow> \<not> mech_param E mech k \<Longrightarrow>
     fst (setattr_loop E mech kwargs ps) = Some AttributeError"
proof (induction kwargs arbitrary: ps)
  case Nil
  then show ?case by simp
next
  case (Cons kv kwargs)
  obtain k' v where kv: "kv = (k', v)" by (cases kv)
  show ?case
  proof (cases "mech_param E mech k'")
    case True
    with Cons.prems kv have "k \<in> fst ` set kwargs" by auto
    from Cons.IH [OF this Cons.prems(2)] True kv show ?thesis by simp
  next
    case False
    with kv show ?thesis by simp
  qed
qed

lemma segments_loop_ok:
  "\<forall>k \<in> fst ` set kwargs. mech_param E mech k \<Longrightarrow>
     \<exists>pss'. segments_loop E mech kwargs pss = (None, pss')
       \<and> length pss' = length pss
       \<and> (\<forall>ps \<in> set pss'. \<forall>k v. map_of (rev kwargs) k = Some v \<longrightarrow> map_of ps k = Some v)"
proof (induction pss)
  case Nil
  then show ?case by simp
next
  case (Cons ps pss)
  from setattr_loop_ok [OF Cons.prems, of ps] obtain ps' where
    ps': "setattr_loop E mech kwargs ps = (None, ps')"
    and val: "\<forall>k. map_of ps' k = (case map_of (rev kwargs) k of Some v \<Rightarrow> Some v | None \<Rightarrow> map_of ps k)"
    by blast
  from Cons.IH [OF Cons.prems] obtain pss' where
    pss': "segments_loop E mech kwargs pss = (None, pss')" "length pss' = length pss"
      "\<forall>ps \<in> set pss'. \<forall>k v. map_of (rev kwargs) k = Some v \<longrightarrow> map_of ps k = Some v"
    by blast
  from val have "\<forall>k v. map_of (rev kwargs) k = Some v \<longrightarrow> map_of ps' k = Some v" by simp
  with ps' pss' show ?case by simp
qed

text \<open>
  What a successful pass of the loop of \<open>insert\<close> leaves on one section: the mechanism
  is there, on as many segments as before or, newly inserted, on \<open>nseg\<close> segments, and
  every keyword is set on every segment. Nothing else of the section changes.
\<close>

lemma sec_insert_ok:
  assumes "density_mech E mech" and "\<forall>k \<in> fst ` set kwargs. mech_param E mech k"
  shows "\<exists>s'. sec_insert E mech kwargs s = (None, s')
      \<and> (\<exists>pss. map_of (sec_mechs s') mech = Some pss
            \<and> (map_of (sec_mechs s) mech = None \<longrightarrow> length pss = nat (sec_nseg s))
            \<and> (\<forall>pss0. map_of (sec_mechs s) mech = Some pss0 \<longrightarrow> length pss = length pss0)
            \<and> (\<forall>ps \<in> set pss. \<forall>k v. map_of (rev kwargs) k = Some v \<longrightarrow> map_of ps k = Some v))
      \<and> (\<forall>c. c \<noteq> mech \<longrightarrow> map_of (sec_mechs s') c = map_of (sec_mechs s) c)
      \<and> s'\<lparr>sec_mechs := sec_mechs s\<rparr> = s"
proof (cases "map_of (sec_mechs s) mech")
  case None
  let ?s1 = "s\<lparr>sec_mechs := sec_mechs s @ [(mech, replicate (nat (sec_nseg s)) [])]\<rparr>"
  let ?pss = "replicate (nat (sec_nseg s)) ([] :: (string \<times> rat) list)"
  from assms(1) None have s1: "section_insert E mech s = Inr ?s1"
    by (simp add: section_insert_def)
  from None have look: "map_of (sec_mechs ?s1) mech = Some ?pss"
    by (simp add: map_add_def)
  from segments_loop_ok [OF assms(2), of ?pss] obtain pss' where
    run: "segments_loop E mech kwargs ?pss = (None, pss')" and len: "length pss' = length ?pss"
    and val: "\<forall>ps \<in> set pss'. \<forall>k v. map_of (rev kwargs) k = Some v \<longrightarrow> map_of ps k = Some v"
    by blast
  let ?s' = "?s1\<lparr>sec_mechs := AList.update mech pss' (sec_mechs ?s1)\<rparr>"
  from s1 run look have res: "sec_insert E mech kwargs s = (None, ?s')"
    by (simp add: sec_insert_def)
  have m: "map_of (sec_mechs ?s') mech = Some pss'"
    by (simp add: update_conv')
  have o: "\<forall>c. c \<noteq> mech \<longrightarrow> map_of (sec_mechs ?s') c = map_of (sec_mechs s) c"
    by (simp add: update_conv' map_add_def split: option.splits)
  have f: "?s'\<lparr>sec_mechs := sec_mechs s\<rparr> = s" by simp
  from len have l: "length pss' = nat (sec_nseg s)" by simp
  have A: "\<exists>pss. map_of (sec_mechs ?s') mech = Some pss
            \<and> (map_of (sec_mechs s) mech = None \<longrightarrow> length pss = nat (sec_nseg s))
            \<and> (\<forall>pss0. map_of (sec_mechs s) mech = Some pss0 \<longrightarrow> length pss = length pss0)
            \<and> (\<forall>ps \<in> set pss. \<forall>k v. map_of (rev kwargs) k = Some v \<longrightarrow> map_of ps k = Some v)"
  proof (intro exI conjI)
    show "map_of (sec_mechs ?s') mech = Some pss'" by (rule m)
    show "map_of (sec_mechs s) mech = None \<longrightarrow> length pss' = nat (sec_nseg s)" using l by simp
    show "\<forall>pss0. map_of (sec_mechs s) mech = Some pss0 \<longrightarrow> length pss' = length pss0"
      using None by simp
    show "\<forall>ps \<in> set pss'. \<forall>k v. map_of (rev kwargs) k = Some v \<longrightarrow> map_of ps k = Some v"
      by (rule val)
  qed
  show ?thesis
    by (rule exI [of _ ?s']) (intro conjI res A o f)
next
  case (Some pss0)
  from assms(1) Some have s1: "section_insert E mech s = Inr s"
    by (simp add: section_insert_def)
  from segments_loop_ok [OF assms(2), of pss0] obtain pss' where
    run: "segments_loop E mech kwargs pss0 = (None, pss')" and len: "length pss' = length pss0"
    and val: "\<forall>ps \<in> set pss'. \<forall>k v. map_of (rev kwargs) k = Some v \<longrightarrow> map_of ps k = Some v"
    by blast
  let ?s' = "s\<lparr>sec_mechs := AList.update mech pss' (sec_mechs s)\<rparr>"
  from s1 run Some have res: "sec_insert E mech kwargs s = (None, ?s')"
    by (simp add: sec_insert_def)
  have m: "map_of (sec_mechs ?s') mech = Some pss'"
    by (simp add: update_conv')
  have o: "\<forall>c. c \<noteq> mech \<longrightarrow> map_of (sec_mechs ?s') c = map_of (sec_mechs s) c"
    by (simp add: update_conv')
  have f: "?s'\<lparr>sec_mechs := sec_mechs s\<rparr> = s" by simp
  have A: "\<exists>pss. map_of (sec_mechs ?s') mech = Some pss
            \<and> (map_of (sec_mechs s) mech = None \<longrightarrow> length pss = nat (sec_nseg s))
            \<and> (\<forall>pss0. map_of (sec_mechs s) mech = Some pss0 \<longrightarrow> length pss = length pss0)
            \<and> (\<forall>ps \<in> set pss. \<forall>k v. map_of (rev kwargs) k = Some v \<longrightarrow> map_of ps k = Some v)"
  proof (intro exI conjI)
    show "map_of (sec_mechs ?s') mech = Some pss'" by (rule m)
    show "map_of (sec_mechs s) mech = None \<longrightarrow> length pss' = nat (sec_nseg s)" using Some by simp
    show "\<forall>pss0. map_of (sec_mechs s) mech = Some pss0 \<longrightarrow> length pss' = length pss0"
      using Some len by simp
    show "\<forall>ps \<in> set pss'. \<forall>k v. map_of (rev kwargs) k = Some v \<longrightarrow> map_of ps k = Some v"
      by (rule val)
  qed
  show ?thesis
    by (rule exI [of _ ?s']) (intro conjI res A o f)
qed

lemma insert_loop_ok:
  assumes dm: "density_mech E mech" and ps: "\<forall>k \<in> fst ` set kwargs. mech_param E mech k"
  shows "k \<le> length (sections m) \<Longrightarrow>
    \<exists>m'. insert_loop E mech kwargs [k ..< length (sections m)] m = (None, m')
       \<and> length (sections m') = length (sections m)
       \<and> m'\<lparr>sections := sections m\<rparr> = m
       \<and> (\<forall>i < length (sections m).
             (i < k \<longrightarrow> sections m' ! i = sections m ! i)
             \<and> (k \<le> i \<longrightarrow> sec_insert E mech kwargs (sections m ! i) = (None, sections m' ! i)))"
proof (induction "length (sections m) - k" arbitrary: k m)
  case 0
  then show ?case by simp
next
  case (Suc d)
  then have k: "k < length (sections m)" by simp
  from sec_insert_ok [OF dm ps, of "sections m ! k"] obtain s' where
    s': "sec_insert E mech kwargs (sections m ! k) = (None, s')" by blast
  let ?m = "m\<lparr>sections := (sections m)[k := s']\<rparr>"
  have len: "length (sections ?m) = length (sections m)" by simp
  have "d = length (sections ?m) - Suc k" "Suc k \<le> length (sections ?m)"
    using Suc.hyps(2) k by simp_all
  from Suc.hyps(1) [OF this] obtain m' where
    run: "insert_loop E mech kwargs [Suc k ..< length (sections ?m)] ?m = (None, m')"
    and l': "length (sections m') = length (sections ?m)"
    and fr: "m'\<lparr>sections := sections ?m\<rparr> = ?m"
    and each: "\<forall>i < length (sections ?m).
             (i < Suc k \<longrightarrow> sections m' ! i = sections ?m ! i)
             \<and> (Suc k \<le> i \<longrightarrow> sec_insert E mech kwargs (sections ?m ! i) = (None, sections m' ! i))"
    by blast
  have res: "insert_loop E mech kwargs [k ..< length (sections m)] m = (None, m')"
    using k s' run by (simp add: upt_rec [of k])
  from fr have fr': "m'\<lparr>sections := sections m\<rparr> = m"
    by (cases m, cases m') simp
  have e: "(i < k \<longrightarrow> sections m' ! i = sections m ! i)
             \<and> (k \<le> i \<longrightarrow> sec_insert E mech kwargs (sections m ! i) = (None, sections m' ! i))"
    if i: "i < length (sections m)" for i
  proof -
    from each i have a: "i < Suc k \<longrightarrow> sections m' ! i = sections ?m ! i"
      and b: "Suc k \<le> i \<longrightarrow> sec_insert E mech kwargs (sections ?m ! i) = (None, sections m' ! i)"
      by simp_all
    consider "i < k" | "i = k" | "k < i" by linarith
    then show ?thesis
    proof cases
      case 1
      with a show ?thesis by simp
    next
      case 2
      with a k s' show ?thesis by simp
    next
      case 3
      with b show ?thesis by simp
    qed
  qed
  from res l' fr' e show ?case by (intro exI [of _ m']) simp
qed

text \<open>
  \<open>insert\<close> with a subset that is \<open>None\<close> or empty, a mechanism that NEURON knows and
  keywords that are parameters of it: the call returns, and every section of the model
  then has the mechanism, with every keyword set on every segment. A section that did not
  have the mechanism has it on \<open>nseg\<close> segments. Nothing else changes.
\<close>

lemma insert_reaches_every_section:
  assumes "subset_falsy sub" and "density_mech E mech"
    and "\<forall>k \<in> fst ` set kwargs. mech_param E mech k"
  shows "\<exists>m'. insert_mech E mech sub kwargs m = (None, m')
     \<and> length (sections m') = length (sections m)
     \<and> m'\<lparr>sections := sections m\<rparr> = m
     \<and> (\<forall>i < length (sections m).
          (\<exists>pss. map_of (sec_mechs (sections m' ! i)) mech = Some pss
             \<and> (map_of (sec_mechs (sections m ! i)) mech = None \<longrightarrow>
                   length pss = nat (sec_nseg (sections m ! i)))
             \<and> (\<forall>ps \<in> set pss. \<forall>k v. map_of (rev kwargs) k = Some v \<longrightarrow> map_of ps k = Some v))
          \<and> (\<forall>c. c \<noteq> mech \<longrightarrow>
                 map_of (sec_mechs (sections m' ! i)) c = map_of (sec_mechs (sections m ! i)) c)
          \<and> (sections m' ! i)\<lparr>sec_mechs := sec_mechs (sections m ! i)\<rparr> = sections m ! i)"
proof -
  from insert_loop_ok [OF assms(2,3), of 0 m] obtain m' where
    run: "insert_loop E mech kwargs [0 ..< length (sections m)] m = (None, m')"
    and len: "length (sections m') = length (sections m)"
    and fr: "m'\<lparr>sections := sections m\<rparr> = m"
    and each: "\<forall>i < length (sections m).
        sec_insert E mech kwargs (sections m ! i) = (None, sections m' ! i)"
    by auto
  from run assms(1) have res: "insert_mech E mech sub kwargs m = (None, m')"
    by (simp add: insert_mech_def select_falsy)
  have "(\<exists>pss. map_of (sec_mechs (sections m' ! i)) mech = Some pss
             \<and> (map_of (sec_mechs (sections m ! i)) mech = None \<longrightarrow>
                   length pss = nat (sec_nseg (sections m ! i)))
             \<and> (\<forall>ps \<in> set pss. \<forall>k v. map_of (rev kwargs) k = Some v \<longrightarrow> map_of ps k = Some v))
          \<and> (\<forall>c. c \<noteq> mech \<longrightarrow>
                 map_of (sec_mechs (sections m' ! i)) c = map_of (sec_mechs (sections m ! i)) c)
          \<and> (sections m' ! i)\<lparr>sec_mechs := sec_mechs (sections m ! i)\<rparr> = sections m ! i"
    if "i < length (sections m)" for i
  proof -
    from each that have "sec_insert E mech kwargs (sections m ! i) = (None, sections m' ! i)" by simp
    with sec_insert_ok [OF assms(2,3), of "sections m ! i"] show ?thesis by auto
  qed
  with res len fr show ?thesis by (intro exI [of _ m']) simp
qed

text \<open>
  A name that NEURON does not know as a density mechanism: \<open>sec.insert\<close> raises at the
  first section and the model is as before. A keyword that is no parameter of the
  mechanism: \<open>setattr\<close> raises on the first segment of the first section; the mechanism
  has been inserted into that section by then, and into no other.
\<close>

lemma insert_unknown_mechanism:
  assumes "subset_falsy sub" and "\<not> density_mech E mech" and "sections m \<noteq> []"
  shows "insert_mech E mech sub kwargs m =
           (Some (ValueError ''argument not a density mechanism name.''), m)"
proof -
  from assms(3) have "[0 ..< length (sections m)] = 0 # [1 ..< length (sections m)]"
    by (simp add: upt_rec)
  with assms(1,2) show ?thesis
    by (simp add: insert_mech_def select_falsy sec_insert_def section_insert_def)
qed

lemma segments_loop_bad:
  assumes "k \<in> fst ` set kwargs" and "\<not> mech_param E mech k" and "pss \<noteq> []"
  shows "fst (segments_loop E mech kwargs pss) = Some AttributeError"
proof -
  from assms(3) obtain ps rest where pss: "pss = ps # rest" by (cases pss) auto
  from setattr_loop_bad [OF assms(1,2), of ps]
  obtain ps' where "setattr_loop E mech kwargs ps = (Some AttributeError, ps')"
    by (cases "setattr_loop E mech kwargs ps") auto
  with pss show ?thesis by simp
qed

lemma insert_unknown_keyword:
  assumes sf: "subset_falsy sub" and dm: "density_mech E mech"
    and k: "k \<in> fst ` set kwargs" "\<not> mech_param E mech k"
    and ne: "sections m \<noteq> []" and ns: "1 \<le> sec_nseg (sections m ! 0)"
    and new: "map_of (sec_mechs (sections m ! 0)) mech = None"
  shows "fst (insert_mech E mech sub kwargs m) = Some AttributeError
     \<and> length (sections (snd (insert_mech E mech sub kwargs m))) = length (sections m)
     \<and> mech \<in> fst ` set (sec_mechs (sections (snd (insert_mech E mech sub kwargs m)) ! 0))
     \<and> (\<forall>i < length (sections m). 0 < i \<longrightarrow>
           sections (snd (insert_mech E mech sub kwargs m)) ! i = sections m ! i)"
proof -
  let ?s = "sections m ! 0"
  let ?s1 = "?s\<lparr>sec_mechs := sec_mechs ?s @ [(mech, replicate (nat (sec_nseg ?s)) [])]\<rparr>"
  let ?pss = "replicate (nat (sec_nseg ?s)) ([] :: (string \<times> rat) list)"
  from ne have upt: "[0 ..< length (sections m)] = 0 # [1 ..< length (sections m)]"
    by (simp add: upt_rec)
  from dm new have s1: "section_insert E mech ?s = Inr ?s1"
    by (simp add: section_insert_def)
  from new have look: "map_of (sec_mechs ?s1) mech = Some ?pss"
    by (simp add: map_add_def)
  from ns have "?pss \<noteq> []" by simp
  from segments_loop_bad [OF k this] obtain pss' where
    run: "segments_loop E mech kwargs ?pss = (Some AttributeError, pss')"
    by (cases "segments_loop E mech kwargs ?pss") auto
  let ?s' = "?s1\<lparr>sec_mechs := AList.update mech pss' (sec_mechs ?s1)\<rparr>"
  from s1 look run have "sec_insert E mech kwargs ?s = (Some AttributeError, ?s')"
    by (simp add: sec_insert_def)
  with sf upt have res: "insert_mech E mech sub kwargs m =
      (Some AttributeError, m\<lparr>sections := (sections m)[0 := ?s']\<rparr>)"
    by (simp add: insert_mech_def select_falsy)
  have "mech \<in> fst ` set (sec_mechs ?s')"
    by (simp add: dom_update [simplified dom_map_of_conv_image_fst] image_Un)
  with ne show ?thesis unfolding res by simp
qed

subsection \<open>Removal\<close>

lemma uninsert_loop_leaves_model: "snd (uninsert_loop E mech ixs m) = m"
proof (induction ixs)
  case Nil
  then show ?case by simp
next
  case (Cons i ixs)
  then show ?case
    by (simp add: hasattr_section_def section_uninsert_def)
qed

text \<open>
  \<open>uninsert\<close> never changes the model: \<open>hasattr(sec, mechanism)\<close> is false for every
  density mechanism, so \<open>sec.uninsert\<close> is reached only with a name for which it raises.
\<close>

lemma uninsert_changes_nothing: "snd (uninsert E mech sub m) = m"
  by (simp add: uninsert_def uninsert_loop_leaves_model split: sum.splits)

lemma uninsert_density_mechanism:
  assumes "density_mech E mech" and "subset_falsy sub"
  shows "uninsert E mech sub m = (None, m)"
proof -
  have "uninsert_loop E mech ixs m = (None, m)" for ixs
    using assms(1) by (induction ixs) (simp_all add: hasattr_section_def)
  with assms(2) show ?thesis by (simp add: uninsert_def select_falsy)
qed

text \<open>
  NEURON's own \<open>sec.uninsert\<close>, called with the name of a density mechanism, does remove
  it: the guard \<open>hasattr(sec, mechanism)\<close> is what keeps \<open>uninsert\<close> from calling it.
\<close>

lemma section_uninsert_removes:
  "density_mech E mech \<Longrightarrow>
     \<exists>s'. section_uninsert E mech s = Inr s' \<and> map_of (sec_mechs s') mech = None
       \<and> (\<forall>c. c \<noteq> mech \<longrightarrow> map_of (sec_mechs s') c = map_of (sec_mechs s) c)"
  by (simp add: section_uninsert_def delete_conv')

text \<open>
  Claim C9. \<open>if not subset\<close> selects every section for \<open>None\<close> and for the empty list
  alike, in \<open>insert\<close> and in \<open>uninsert\<close>. \<open>insert('pas', subset=[], g=1/20800, e=-60)\<close>
  on the demonstration model inserts the mechanism into each of the three sections, on
  every segment. \<open>uninsert('pas', subset=[])\<close> on the result visits the three sections
  and removes the mechanism from none of them, and so does \<open>uninsert('pas')\<close>:
  \<open>hasattr(sec, 'pas')\<close> is false on a Section, the call \<open>sec.uninsert('pas')\<close> is never
  made, and the method returns without an error, the model unchanged.
\<close>

theorem uninsert_with_empty_subset_removes_nothing:
  "select_sections pas_model (Some []) = Inr [0, 1, 2]
   \<and> insert_mech demo_engine ''pas'' (Some []) [(''g'', 1 / 20800), (''e'', - 60)] demo_model
        = (None, pas_model)
   \<and> map (\<lambda>s. map fst (sec_mechs s)) (sections pas_model) = [[''pas''], [''pas''], [''pas'']]
   \<and> map (\<lambda>s. map_option length (map_of (sec_mechs s) ''pas'')) (sections pas_model)
        = [Some 3, Some 1, Some 5]
   \<and> map (\<lambda>s. hasattr_section demo_engine s ''pas'') (sections pas_model) = [False, False, False]
   \<and> uninsert demo_engine ''pas'' (Some []) pas_model = (None, pas_model)
   \<and> uninsert demo_engine ''pas'' None pas_model = (None, pas_model)
   \<and> map (\<lambda>s. map fst (sec_mechs s)) (sections (snd (uninsert demo_engine ''pas'' (Some []) pas_model)))
        = [[''pas''], [''pas''], [''pas'']]"
  by code_simp

section \<open>Synaptic input\<close>

lemma get_list_update:
  "get_list (AList.update k v al) k' = (if k' = k then v else get_list al k')"
  by (simp add: get_list_def update_conv')

lemma location_after_synapse [simp]:
  "location (m\<lparr>synapses := sy, hoc := h, stimuli := st\<rparr>) n = location m n"
  by (simp add: location_def split: option.splits)

lemma synaptic_loop_inv:
  "synaptic_loop P stim ns m = (r, m') \<Longrightarrow>
     (\<exists>news. hoc m' = hoc m @ news
        \<and> (\<forall>ob \<in> set news. \<not> is_NetStim ob)
        \<and> (\<forall>ob \<in> set news. generator_of ob \<in> {None, Some stim}))
     \<and> (\<forall>n. take (length (get_list (synapses m) n)) (get_list (synapses m') n) = get_list (synapses m) n)
     \<and> (\<forall>n. take (length (get_list (stimuli m) n)) (get_list (stimuli m') n) = get_list (stimuli m) n)
     \<and> records m' = records m"
proof (induction ns arbitrary: m)
  case Nil
  then show ?case by simp
next
  case (Cons n ns)
  show ?case
  proof (cases "location m n")
    case (Inl e)
    with Cons.prems show ?thesis by simp
  next
    case (Inr ix)
    obtain i x where ix: "ix = (i, x)" by (cases ix)
    let ?syn = "PointProcess ''Exp2Syn'' i x
                      [(''tau1'', syn_tau1 P), (''tau2'', syn_tau2 P),
                       (''e'', syn_rev_pot P), (''i'', syn_curr P)]"
    let ?nc = "NetCon stim (length (hoc m))
                      [(''threshold'', cn_thresh P), (''delay'', cn_delay P),
                       (''weight[0]'', cn_weight P)]"
    let ?m4 = "m\<lparr>synapses := AList.update n (get_list (synapses m) n @ [length (hoc m)]) (synapses m),
                 hoc := hoc m @ [?syn, ?nc],
                 stimuli := AList.update n (get_list (stimuli m) n @ [Suc (length (hoc m)), stim]) (stimuli m)\<rparr>"
    from Cons.prems Inr ix have rest: "synaptic_loop P stim ns ?m4 = (r, m')"
      by (simp add: Let_def new_ref_def create_def)
    from Cons.IH [OF rest] obtain news where
      news: "hoc m' = hoc ?m4 @ news" "\<forall>ob \<in> set news. \<not> is_NetStim ob"
        "\<forall>ob \<in> set news. generator_of ob \<in> {None, Some stim}"
      and syn: "\<forall>k. take (length (get_list (synapses ?m4) k)) (get_list (synapses m') k) = get_list (synapses ?m4) k"
      and sti: "\<forall>k. take (length (get_list (stimuli ?m4) k)) (get_list (stimuli m') k) = get_list (stimuli ?m4) k"
      and rec: "records m' = records ?m4"
      by blast
    have A: "\<exists>news. hoc m' = hoc m @ news
        \<and> (\<forall>ob \<in> set news. \<not> is_NetStim ob)
        \<and> (\<forall>ob \<in> set news. generator_of ob \<in> {None, Some stim})"
      using news by (intro exI [of _ "[?syn, ?nc] @ news"]) auto
    have pre: "take (length xs) zs = xs" if "take k zs = xs @ ys" for xs ys zs :: "nat list" and k
    proof -
      from that have "length (take k zs) = length xs + length ys" by simp
      then have "length xs \<le> k" by simp
      then have "take (length xs) zs = take (length xs) (take k zs)"
        by (simp add: min_def)
      also have "\<dots> = xs" unfolding that by simp
      finally show ?thesis .
    qed
    have B: "\<forall>k. take (length (get_list (synapses m) k)) (get_list (synapses m') k) = get_list (synapses m) k"
    proof
      fix k
      from syn have "take (length (get_list (synapses ?m4) k)) (get_list (synapses m') k) = get_list (synapses ?m4) k" ..
      then show "take (length (get_list (synapses m) k)) (get_list (synapses m') k) = get_list (synapses m) k"
        by (cases "k = n") (auto simp: get_list_update dest: pre)
    qed
    have C: "\<forall>k. take (length (get_list (stimuli m) k)) (get_list (stimuli m') k) = get_list (stimuli m) k"
    proof
      fix k
      from sti have "take (length (get_list (stimuli ?m4) k)) (get_list (stimuli m') k) = get_list (stimuli ?m4) k" ..
      then show "take (length (get_list (stimuli m) k)) (get_list (stimuli m') k) = get_list (stimuli m) k"
        by (cases "k = n") (auto simp: get_list_update dest: pre)
    qed
    from A B C rec show ?thesis by simp
  qed
qed

lemma upt_0_Suc: "[0 ..< Suc n] = 0 # map Suc [0 ..< n]"
  by (simp add: upt_conv_Cons map_Suc_upt del: upt_Suc)

lemma filter_index_Cons:
  "filter (\<lambda>k. (t # ts) ! k = x) [0 ..< Suc (length ts)]
     = (if t = x then [0] else []) @ map Suc (filter (\<lambda>k. ts ! k = x) [0 ..< length ts])"
  by (simp only: upt_0_Suc) (simp add: filter_map o_def)

lemma synaptic_loop_exact:
  "synaptic_loop P stim ns m = (r, m') \<Longrightarrow>
     (r = None \<longleftrightarrow> takeWhile (located m) ns = ns)
     \<and> length (hoc m') = length (hoc m) + 2 * length (takeWhile (located m) ns)
     \<and> take (length (hoc m)) (hoc m') = hoc m
     \<and> (\<forall>k < length (takeWhile (located m) ns).
           hoc m' ! (length (hoc m) + 2 * k) = synapse_at P m (takeWhile (located m) ns ! k)
           \<and> hoc m' ! (length (hoc m) + 2 * k + 1) = connector P stim (length (hoc m) + 2 * k))
     \<and> (\<forall>x. get_list (synapses m') x = get_list (synapses m) x
           @ map (\<lambda>k. length (hoc m) + 2 * k)
               (filter (\<lambda>k. takeWhile (located m) ns ! k = x) [0 ..< length (takeWhile (located m) ns)]))
     \<and> (\<forall>x. get_list (stimuli m') x = get_list (stimuli m) x
           @ concat (map (\<lambda>k. [length (hoc m) + 2 * k + 1, stim])
               (filter (\<lambda>k. takeWhile (located m) ns ! k = x) [0 ..< length (takeWhile (located m) ns)])))
     \<and> fst ` set (synapses m') = fst ` set (synapses m) \<union> set (takeWhile (located m) ns)
     \<and> fst ` set (stimuli m') = fst ` set (stimuli m) \<union> set (takeWhile (located m) ns)"
proof (induction ns arbitrary: m)
  case Nil
  then show ?case by simp
next
  case (Cons n ns)
  show ?case
  proof (cases "location m n")
    case (Inl e)
    then have nl: "\<not> located m n" by (simp add: located_def)
    from Cons.prems Inl have "r = Some e" "m' = m" by simp_all
    with nl show ?thesis by simp
  next
    case (Inr ix)
    obtain i x where ix: "ix = (i, x)" by (cases ix)
    from Inr have l: "located m n" by (simp add: located_def)
    let ?h = "length (hoc m)"
    let ?syn = "PointProcess ''Exp2Syn'' i x
                      [(''tau1'', syn_tau1 P), (''tau2'', syn_tau2 P),
                       (''e'', syn_rev_pot P), (''i'', syn_curr P)]"
    let ?nc = "NetCon stim ?h
                      [(''threshold'', cn_thresh P), (''delay'', cn_delay P),
                       (''weight[0]'', cn_weight P)]"
    let ?m4 = "m\<lparr>synapses := AList.update n (get_list (synapses m) n @ [?h]) (synapses m),
                 hoc := hoc m @ [?syn, ?nc],
                 stimuli := AList.update n (get_list (stimuli m) n @ [Suc ?h, stim]) (stimuli m)\<rparr>"
    from Cons.prems Inr ix have rest: "synaptic_loop P stim ns ?m4 = (r, m')"
      by (simp add: Let_def new_ref_def create_def)
    have same: "located ?m4 = located m" "synapse_at P ?m4 = synapse_at P m"
      by (simp_all add: located_def synapse_at_def fun_eq_iff)
    let ?ts = "takeWhile (located m) ns"
    have tw: "takeWhile (located m) (n # ns) = n # ?ts" using l by simp
    have h4: "length (hoc ?m4) = ?h + 2" by simp
    note ih = Cons.IH [OF rest, unfolded same h4]
    from ih have r: "r = None \<longleftrightarrow> ?ts = ns"
      and len: "length (hoc m') = ?h + 2 + 2 * length ?ts"
      and pre: "take (?h + 2) (hoc m') = hoc ?m4"
      and obj: "\<forall>k < length ?ts.
           hoc m' ! (?h + 2 + 2 * k) = synapse_at P m (?ts ! k)
           \<and> hoc m' ! (?h + 2 + 2 * k + 1) = connector P stim (?h + 2 + 2 * k)"
      and syn: "\<forall>y. get_list (synapses m') y = get_list (synapses ?m4) y
           @ map (\<lambda>k. ?h + 2 + 2 * k) (filter (\<lambda>k. ?ts ! k = y) [0 ..< length ?ts])"
      and sti: "\<forall>y. get_list (stimuli m') y = get_list (stimuli ?m4) y
           @ concat (map (\<lambda>k. [?h + 2 + 2 * k + 1, stim]) (filter (\<lambda>k. ?ts ! k = y) [0 ..< length ?ts]))"
      and ks: "fst ` set (synapses m') = fst ` set (synapses ?m4) \<union> set ?ts"
      and kt: "fst ` set (stimuli m') = fst ` set (stimuli ?m4) \<union> set ?ts"
      by simp_all
    have pre2: "take (?h + 2) (hoc m') = hoc m @ [?syn, ?nc]" using pre by simp
    have A: "r = None \<longleftrightarrow> takeWhile (located m) (n # ns) = n # ns"
      using r tw by simp
    have B: "length (hoc m') = ?h + 2 * length (takeWhile (located m) (n # ns))"
      using len tw by simp
    have C: "take ?h (hoc m') = hoc m"
    proof -
      have "take ?h (hoc m') = take ?h (take (?h + 2) (hoc m'))" by (simp add: min_def)
      also have "\<dots> = hoc m" unfolding pre2 by simp
      finally show ?thesis .
    qed
    have first: "hoc m' ! ?h = ?syn" "hoc m' ! (?h + 1) = ?nc"
    proof -
      have "hoc m' ! ?h = take (?h + 2) (hoc m') ! ?h" by simp
      also have "\<dots> = ?syn" unfolding pre2 by (simp add: nth_append)
      finally show "hoc m' ! ?h = ?syn" .
      have "hoc m' ! (?h + 1) = take (?h + 2) (hoc m') ! (?h + 1)" by simp
      also have "\<dots> = ?nc" unfolding pre2 by (simp add: nth_append)
      finally show "hoc m' ! (?h + 1) = ?nc" .
    qed
    have D: "hoc m' ! (?h + 2 * k) = synapse_at P m ((n # ?ts) ! k)
           \<and> hoc m' ! (?h + 2 * k + 1) = connector P stim (?h + 2 * k)"
      if "k < length (n # ?ts)" for k
    proof (cases k)
      case 0
      with first Inr ix show ?thesis by (simp add: synapse_at_def connector_def)
    next
      case (Suc k')
      with that obj have "hoc m' ! (?h + 2 + 2 * k') = synapse_at P m (?ts ! k')
           \<and> hoc m' ! (?h + 2 + 2 * k' + 1) = connector P stim (?h + 2 + 2 * k')"
        by simp
      with Suc show ?thesis by (simp add: add.commute add.left_commute)
    qed
    have E: "get_list (synapses m') y = get_list (synapses m) y
           @ map (\<lambda>k. ?h + 2 * k) (filter (\<lambda>k. (n # ?ts) ! k = y) [0 ..< length (n # ?ts)])" for y
    proof -
      have "map (\<lambda>k. ?h + 2 * k) (filter (\<lambda>k. (n # ?ts) ! k = y) [0 ..< length (n # ?ts)])
          = (if n = y then [?h] else []) @ map (\<lambda>k. ?h + 2 + 2 * k) (filter (\<lambda>k. ?ts ! k = y) [0 ..< length ?ts])"
        by (simp add: filter_index_Cons o_def del: upt_Suc)
      moreover from syn have "get_list (synapses m') y = get_list (synapses ?m4) y
           @ map (\<lambda>k. ?h + 2 + 2 * k) (filter (\<lambda>k. ?ts ! k = y) [0 ..< length ?ts])" ..
      ultimately show ?thesis by (simp add: get_list_update)
    qed
    have F: "get_list (stimuli m') y = get_list (stimuli m) y
           @ concat (map (\<lambda>k. [?h + 2 * k + 1, stim]) (filter (\<lambda>k. (n # ?ts) ! k = y) [0 ..< length (n # ?ts)]))" for y
    proof -
      have "concat (map (\<lambda>k. [?h + 2 * k + 1, stim]) (filter (\<lambda>k. (n # ?ts) ! k = y) [0 ..< length (n # ?ts)]))
          = (if n = y then [Suc ?h, stim] else [])
            @ concat (map (\<lambda>k. [?h + 2 + 2 * k + 1, stim]) (filter (\<lambda>k. ?ts ! k = y) [0 ..< length ?ts]))"
        by (simp add: filter_index_Cons o_def del: upt_Suc)
      moreover from sti have "get_list (stimuli m') y = get_list (stimuli ?m4) y
           @ concat (map (\<lambda>k. [?h + 2 + 2 * k + 1, stim]) (filter (\<lambda>k. ?ts ! k = y) [0 ..< length ?ts]))" ..
      ultimately show ?thesis by (simp add: get_list_update)
    qed
    have G: "fst ` set (synapses m') = fst ` set (synapses m) \<union> set (n # ?ts)"
      using ks by (simp add: dom_update [simplified dom_map_of_conv_image_fst] insert_commute Un_commute)
    have H: "fst ` set (stimuli m') = fst ` set (stimuli m) \<union> set (n # ?ts)"
      using kt by (simp add: dom_update [simplified dom_map_of_conv_image_fst] insert_commute Un_commute)
    from A B C D E F G H show ?thesis unfolding tw by blast
  qed
qed

lemma location_create [simp]: "location (create ob m) n = location m n"
  by (simp add: location_def create_def split: option.splits)

text \<open>
  Claim C7. Whatever the targets, and whether the call succeeds or raises,
  \<open>add_synaptic_input\<close> creates exactly one \<open>NetStim\<close>: the first object the call
  creates. Every connector that the call creates references that generator, and for every
  node the synapse list and the stimulus list of before the call are prefixes of the
  lists after it: entries are appended, none is replaced. What is appended is exactly
  what the call creates: for the target visited \<open>k\<close>-th, an \<open>Exp2Syn\<close> at the target's
  location and a \<open>NetCon\<close> from the generator to that synapse are created, in this
  order, after the generator; the synapse is appended to the synapse list of the target,
  and the connector followed by the generator to its stimulus list. A target listed twice
  gets two synapses. The lists of the other nodes and the records are as before, and the
  call returns without an error exactly when it has worked through all targets.
\<close>

theorem synaptic_input_shares_one_generator:
  "(\<exists>news. hoc (snd (add_synaptic_input wh P m)) =
        hoc m @ NetStim [(''number'', spike_no P), (''start'', start P),
                  (''noise'', spike_noise P), (''interval'', spike_int P)] # news
        \<and> (\<forall>ob \<in> set news. \<not> is_NetStim ob)
        \<and> (\<forall>ob \<in> set news. generator_of ob \<in> {None, Some (length (hoc m))}))
     \<and> (\<forall>n. take (length (get_list (synapses m) n)) (get_list (synapses (snd (add_synaptic_input wh P m))) n)
            = get_list (synapses m) n)
     \<and> (\<forall>n. take (length (get_list (stimuli m) n)) (get_list (stimuli (snd (add_synaptic_input wh P m))) n)
            = get_list (stimuli m) n)
     \<and> (fst (add_synaptic_input wh P m) = None \<longleftrightarrow> reached m wh = wh)
     \<and> length (hoc (snd (add_synaptic_input wh P m))) = length (hoc m) + 1 + 2 * length (reached m wh)
     \<and> (\<forall>k < length (reached m wh).
           hoc (snd (add_synaptic_input wh P m)) ! (length (hoc m) + 1 + 2 * k)
             = synapse_at P m (reached m wh ! k)
           \<and> hoc (snd (add_synaptic_input wh P m)) ! (length (hoc m) + 2 + 2 * k)
             = connector P (length (hoc m)) (length (hoc m) + 1 + 2 * k))
     \<and> (\<forall>n. get_list (synapses (snd (add_synaptic_input wh P m))) n
            = get_list (synapses m) n
              @ map (\<lambda>k. length (hoc m) + 1 + 2 * k)
                  (filter (\<lambda>k. reached m wh ! k = n) [0 ..< length (reached m wh)]))
     \<and> (\<forall>n. get_list (stimuli (snd (add_synaptic_input wh P m))) n
            = get_list (stimuli m) n
              @ concat (map (\<lambda>k. [length (hoc m) + 2 + 2 * k, length (hoc m)])
                  (filter (\<lambda>k. reached m wh ! k = n) [0 ..< length (reached m wh)])))
     \<and> fst ` set (synapses (snd (add_synaptic_input wh P m))) = fst ` set (synapses m) \<union> set (reached m wh)
     \<and> fst ` set (stimuli (snd (add_synaptic_input wh P m))) = fst ` set (stimuli m) \<union> set (reached m wh)
     \<and> records (snd (add_synaptic_input wh P m)) = records m"
proof -
  let ?g = "NetStim [(''number'', spike_no P), (''start'', start P),
                  (''noise'', spike_noise P), (''interval'', spike_int P)]"
  let ?m1 = "create ?g m"
  let ?h = "length (hoc m)"
  have lf: "loc_fails ?m1 wh = loc_fails m wh"
    by (simp add: loc_fails_def create_def)
  show ?thesis
  proof (cases "loc_fails ?m1 wh")
    case True
    then have res: "add_synaptic_input wh P m = (Some KeyError, ?m1)"
      by (simp add: add_synaptic_input_def Let_def)
    from True lf have re: "reached m wh = []" by (simp add: reached_def)
    from True have "wh \<noteq> []" by (auto simp: loc_fails_def)
    with re have ne: "reached m wh \<noteq> wh" by simp
    show ?thesis
      unfolding res re using ne re
      by (simp add: create_def)
  next
    case False
    then have eq: "add_synaptic_input wh P m = synaptic_loop P ?h wh ?m1"
      by (simp add: add_synaptic_input_def Let_def new_ref_def)
    obtain r m' where rm: "synaptic_loop P ?h wh ?m1 = (r, m')"
      by (cases "synaptic_loop P ?h wh ?m1")
    have same: "located ?m1 = located m" "synapse_at P ?m1 = synapse_at P m"
      by (simp_all add: located_def synapse_at_def fun_eq_iff)
    from False lf have re: "reached m wh = takeWhile (located m) wh" by (simp add: reached_def)
    have h1: "length (hoc ?m1) = ?h + 1" "synapses ?m1 = synapses m" "stimuli ?m1 = stimuli m"
      "records ?m1 = records m"
      by (simp_all add: create_def)
    from synaptic_loop_inv [OF rm] obtain news where
      old: "hoc m' = hoc ?m1 @ news" "\<forall>ob \<in> set news. \<not> is_NetStim ob"
      "\<forall>ob \<in> set news. generator_of ob \<in> {None, Some ?h}"
      "\<forall>n. take (length (get_list (synapses ?m1) n)) (get_list (synapses m') n) = get_list (synapses ?m1) n"
      "\<forall>n. take (length (get_list (stimuli ?m1) n)) (get_list (stimuli m') n) = get_list (stimuli ?m1) n"
      "records m' = records ?m1"
      by blast
    note ex = synaptic_loop_exact [OF rm, unfolded same h1, folded re]
    from ex have A: "r = None \<longleftrightarrow> reached m wh = wh"
      and B: "length (hoc m') = ?h + 1 + 2 * length (reached m wh)"
      and C: "\<forall>k < length (reached m wh).
           hoc m' ! (?h + 1 + 2 * k) = synapse_at P m (reached m wh ! k)
           \<and> hoc m' ! (?h + 1 + 2 * k + 1) = connector P ?h (?h + 1 + 2 * k)"
      and D: "\<forall>x. get_list (synapses m') x = get_list (synapses m) x
           @ map (\<lambda>k. ?h + 1 + 2 * k) (filter (\<lambda>k. reached m wh ! k = x) [0 ..< length (reached m wh)])"
      and E: "\<forall>x. get_list (stimuli m') x = get_list (stimuli m) x
           @ concat (map (\<lambda>k. [?h + 1 + 2 * k + 1, ?h]) (filter (\<lambda>k. reached m wh ! k = x) [0 ..< length (reached m wh)]))"
      and F: "fst ` set (synapses m') = fst ` set (synapses m) \<union> set (reached m wh)"
      and G: "fst ` set (stimuli m') = fst ` set (stimuli m) \<union> set (reached m wh)"
      by simp_all
    have two: "?h + 1 + 2 * k + 1 = ?h + 2 + 2 * k" for k by simp
    from C have C': "\<forall>k < length (reached m wh).
           hoc m' ! (?h + 1 + 2 * k) = synapse_at P m (reached m wh ! k)
           \<and> hoc m' ! (?h + 2 + 2 * k) = connector P ?h (?h + 1 + 2 * k)"
      unfolding two .
    from E have E': "\<forall>x. get_list (stimuli m') x = get_list (stimuli m) x
           @ concat (map (\<lambda>k. [?h + 2 + 2 * k, ?h]) (filter (\<lambda>k. reached m wh ! k = x) [0 ..< length (reached m wh)]))"
      unfolding two .
    from old(1) have O1: "hoc m' = hoc m @ ?g # news" by (simp add: create_def)
    from old(4,5,6) h1 have O4: "\<forall>n. take (length (get_list (synapses m) n)) (get_list (synapses m') n) = get_list (synapses m) n"
      and O5: "\<forall>n. take (length (get_list (stimuli m) n)) (get_list (stimuli m') n) = get_list (stimuli m) n"
      and O6: "records m' = records m"
      by simp_all
    from O1 old(2,3) have O: "\<exists>news. hoc m' = hoc m @ ?g # news
        \<and> (\<forall>ob \<in> set news. \<not> is_NetStim ob)
        \<and> (\<forall>ob \<in> set news. generator_of ob \<in> {None, Some ?h})"
      by blast
    show ?thesis
      unfolding eq rm fst_conv snd_conv
      by (intro conjI O O4 O5 A B C' D E' F G O6)
  qed
qed


theorem synaptic_input_shares_one_generator_witness:
  "reached demo_model [3, 5, 3] = [3, 5, 3]
   \<and> fst (add_synaptic_input [3, 5, 3] demo_params demo_model) = None
   \<and> length (filter is_NetStim (hoc demo_input)) = 1
   \<and> length (hoc demo_input) = 7
   \<and> map generator_of (hoc demo_input) = [None, None, Some 0, None, Some 0, None, Some 0]
   \<and> hoc demo_input ! 5 = synapse_at demo_params demo_model 3
   \<and> hoc demo_input ! 6 = connector demo_params 0 5
   \<and> get_list (synapses demo_input) 3 = [1, 5]
   \<and> get_list (stimuli demo_input) 3 = [2, 0, 6, 0]
   \<and> get_list (synapses demo_input) 5 = [3]
   \<and> get_list (stimuli demo_input) 5 = [4, 0]
   \<and> get_list (synapses demo_input) 4 = []"
proof -
  let ?m' = "snd (add_synaptic_input [3, 5, 3] demo_params demo_model)"
  note c7 = synaptic_input_shares_one_generator [of "[3, 5, 3]" demo_params demo_model]
  have re: "reached demo_model [3, 5, 3] = [3, 5, 3]" by code_simp
  have h0: "length (hoc demo_model) = 0" "hoc demo_model = []" by (simp_all add: demo_model_def)
  from c7 [THEN conjunct1] obtain news where
    "hoc ?m' = hoc demo_model @ NetStim [(''number'', spike_no demo_params), (''start'', start demo_params),
                  (''noise'', spike_noise demo_params), (''interval'', spike_int demo_params)] # news"
    and "\<forall>ob \<in> set news. \<not> is_NetStim ob"
    by blast
  then have one: "length (filter is_NetStim (hoc ?m')) = 1"
    by (simp add: h0)
  from c7 [THEN conjunct2, THEN conjunct2, THEN conjunct2, THEN conjunct1] re
  have ok: "fst (add_synaptic_input [3, 5, 3] demo_params demo_model) = None"
    by simp
  from c7 [THEN conjunct2, THEN conjunct2, THEN conjunct2, THEN conjunct2, THEN conjunct1]
  have len: "length (hoc ?m') = 7"
    unfolding re h0 by simp
  have "(2 :: nat) < length (reached demo_model [3, 5, 3])" by (simp add: re)
  from c7 [THEN conjunct2, THEN conjunct2, THEN conjunct2, THEN conjunct2, THEN conjunct2,
      THEN conjunct1, rule_format, OF this]
  have third: "hoc ?m' ! 5 = synapse_at demo_params demo_model 3"
    "hoc ?m' ! 6 = connector demo_params 0 5"
    unfolding re h0 by simp_all
  have ev: "map generator_of (hoc demo_input) = [None, None, Some 0, None, Some 0, None, Some 0]"
    "get_list (synapses demo_input) 3 = [1, 5]"
    "get_list (stimuli demo_input) 3 = [2, 0, 6, 0]"
    "get_list (synapses demo_input) 5 = [3]"
    "get_list (stimuli demo_input) 5 = [4, 0]"
    "get_list (synapses demo_input) 4 = []"
    by code_simp+
  from re ok one len third ev show ?thesis
    unfolding demo_input_def by (intro conjI)
qed

section \<open>Section building on tree-shaped skeletons\<close>

subsection \<open>The node table\<close>

lemma find_distinct_key:
  "distinct (map f xs) \<Longrightarrow> x \<in> set xs \<Longrightarrow> find (\<lambda>y. f y = f x) xs = Some x"
  by (induction xs) auto

lemma lookup_row_in:
  "distinct (node_ids sk) \<Longrightarrow> row \<in> set (nodes sk) \<Longrightarrow> lookup_row sk (node_id row) = Some row"
  unfolding lookup_row_def node_ids_def by (rule find_distinct_key)

lemma lookup_row_SomeD:
  "lookup_row sk n = Some row \<Longrightarrow> row \<in> set (nodes sk) \<and> node_id row = n"
  unfolding lookup_row_def by (auto simp: find_Some_iff)

lemma lookup_row_None: "lookup_row sk n = None \<longleftrightarrow> n \<notin> set (node_ids sk)"
  unfolding lookup_row_def node_ids_def by (auto simp: find_None_iff)

lemma parent_SomeD:
  "parent sk n = Some p \<Longrightarrow> \<exists>row \<in> set (nodes sk). node_id row = n \<and> parent_id row = Some p"
  unfolding parent_def by (auto split: option.splits dest: lookup_row_SomeD)

lemma parent_row:
  "distinct (node_ids sk) \<Longrightarrow> row \<in> set (nodes sk) \<Longrightarrow> parent sk (node_id row) = parent_id row"
  by (simp add: parent_def lookup_row_in)

lemma parent_in_ids:
  "tree_shaped sk \<Longrightarrow> parent sk n = Some p \<Longrightarrow> n \<in> set (node_ids sk) \<and> p \<in> set (node_ids sk)"
  by (fastforce simp: tree_shaped_def node_ids_def dest!: parent_SomeD)

lemma roots_iff:
  "distinct (node_ids sk) \<Longrightarrow> n \<in> set (roots sk) \<longleftrightarrow> n \<in> set (node_ids sk) \<and> parent sk n = None"
  by (auto simp: roots_def node_ids_def parent_row)

lemma children_iff:
  "distinct (node_ids sk) \<Longrightarrow> c \<in> set (children sk n) \<longleftrightarrow> parent sk c = Some n"
  by (auto simp: children_def parent_row dest!: parent_SomeD)

lemma distinct_children: "distinct (node_ids sk) \<Longrightarrow> distinct (children sk n)"
  unfolding children_def node_ids_def by (rule distinct_map_filter)

lemma distinct_seeds: "distinct (node_ids sk) \<Longrightarrow> distinct (seeds sk)"
  unfolding seeds_def node_ids_def by (rule distinct_map_filter)

lemma seeds_iff:
  "distinct (node_ids sk) \<Longrightarrow>
   s \<in> set (seeds sk) \<longleftrightarrow> parent sk s \<noteq> None \<and> length (children sk s) \<noteq> 1"
  by (auto simp: seeds_def parent_row dest!: parent_SomeD)

lemma find_distinct_key2:
  "distinct (map f xs) \<Longrightarrow> x \<in> set xs \<Longrightarrow> P x \<Longrightarrow> find (\<lambda>y. f y = f x \<and> P y) xs = Some x"
  by (induction xs) auto

lemma edge_weight_row:
  assumes "distinct (node_ids sk)" "row \<in> set (nodes sk)" "parent_id row = Some p"
  shows "edge_weight sk (node_id row) p = Inr (parent_dist row)"
proof -
  have "find (\<lambda>r. node_id r = node_id row \<and> parent_id r = Some p) (nodes sk) = Some row"
    using assms unfolding node_ids_def by (intro find_distinct_key2) auto
  then show ?thesis by (simp add: edge_weight_def)
qed

subsection \<open>Depth\<close>

lemma depth_le: "depth sk k n = Some d \<Longrightarrow> d \<le> k"
proof (induction k arbitrary: n d)
  case 0
  then show ?case by (auto split: option.splits)
next
  case (Suc k)
  then show ?case by (fastforce split: option.splits)
qed

lemma depth_mono: "depth sk k n = Some d \<Longrightarrow> depth sk (Suc k) n = Some d"
proof (induction k arbitrary: n d)
  case 0
  then show ?case by (auto split: option.splits)
next
  case (Suc k)
  show ?case
  proof (cases "parent sk n")
    case None
    with Suc.prems show ?thesis by simp
  next
    case (Some p)
    with Suc.prems obtain d' where d': "depth sk k p = Some d'" "d = Suc d'"
      by auto
    from Suc.IH [OF d'(1)] have "depth sk (Suc k) p = Some d'" .
    then have "map_option Suc (depth sk (Suc k) p) = Some d"
      using d'(2) by simp
    with Some show ?thesis
      by (subst depth.simps(2)) simp
  qed
qed

lemma depth_parent:
  assumes "tree_shaped sk" "parent sk n = Some p"
  shows "\<exists>d. depth sk (length (nodes sk)) p = Some d \<and> depth sk (length (nodes sk)) n = Some (Suc d)"
proof -
  from assms(1) have all: "\<forall>n \<in> set (node_ids sk). depth sk (length (nodes sk)) n \<noteq> None"
    by (simp add: tree_shaped_def)
  from parent_in_ids [OF assms] have "n \<in> set (node_ids sk)" "p \<in> set (node_ids sk)"
    by simp_all
  with all have "depth sk (length (nodes sk)) n \<noteq> None" "depth sk (length (nodes sk)) p \<noteq> None"
    by blast+
  then obtain dn dp where dn: "depth sk (length (nodes sk)) n = Some dn"
    and dp: "depth sk (length (nodes sk)) p = Some dp"
    by auto
  from depth_mono [OF dn] assms(2) dp have "dn = Suc dp" by simp
  with dn dp show ?thesis by simp
qed

lemma depth_root:
  assumes "tree_shaped sk" "depth sk (length (nodes sk)) n = Some 0"
  shows "parent sk n = None"
proof (cases "parent sk n")
  case (Some p)
  from depth_parent [OF assms(1) Some] assms(2) show ?thesis by simp
qed simp

subsection \<open>Chains\<close>

lemma chain_up_chain:
  assumes "tree_shaped sk"
  shows "depth sk (length (nodes sk)) n = Some d \<Longrightarrow> d \<le> k \<Longrightarrow> parent sk n \<noteq> None
    \<Longrightarrow> chain sk (chain_up sk k n)"
proof (induction k arbitrary: n d)
  case 0
  with depth_root [OF assms] show ?case by simp
next
  case (Suc k)
  from Suc.prems(3) obtain p where p: "parent sk n = Some p" by auto
  from depth_parent [OF assms p] Suc.prems(1) obtain d' where
    d': "depth sk (length (nodes sk)) p = Some d'" "d = Suc d'"
    by auto
  show ?case
  proof (cases "is_stop sk p")
    case True
    with p show ?thesis by (simp add: chain.chain_stop)
  next
    case False
    have "parent sk p \<noteq> None"
    proof
      assume "parent sk p = None"
      moreover from parent_in_ids [OF assms p] have "p \<in> set (node_ids sk)" by simp
      ultimately have "p \<in> set (roots sk)"
        using assms by (simp add: roots_iff tree_shaped_def)
      with False show False by (simp add: is_stop_def)
    qed
    with Suc.IH [OF d'(1)] d'(2) Suc.prems(2) have "chain sk (chain_up sk k p)" by simp
    moreover have "chain_up sk k p = p # tl (chain_up sk k p)"
      by (cases k) (auto split: option.splits)
    ultimately have "chain sk (n # p # tl (chain_up sk k p))"
      using p False by (metis chain.chain_step)
    with p False \<open>chain_up sk k p = p # tl (chain_up sk k p)\<close> show ?thesis
      by simp
  qed
qed

lemma segment_chain:
  assumes "tree_shaped sk" "s \<in> set (seeds sk)"
  shows "chain sk (chain_up sk (length (nodes sk)) s) \<and> hd (chain_up sk (length (nodes sk)) s) = s"
proof -
  from assms have d: "distinct (node_ids sk)" by (simp add: tree_shaped_def)
  from assms(2) have par: "parent sk s \<noteq> None"
    by (simp add: seeds_iff [OF d])
  then obtain p where "parent sk s = Some p" by auto
  from depth_parent [OF assms(1) this] obtain ds where
    ds: "depth sk (length (nodes sk)) s = Some ds"
    by auto
  from chain_up_chain [OF assms(1) ds depth_le [OF ds] par]
  have "chain sk (chain_up sk (length (nodes sk)) s)" .
  moreover have "hd (chain_up sk (length (nodes sk)) s) = s"
    by (cases "length (nodes sk)") (auto split: option.splits)
  ultimately show ?thesis by simp
qed

lemma chain_length: "chain sk xs \<Longrightarrow> 2 \<le> length xs"
  by (induction rule: chain.induct) auto

lemma chain_links:
  "chain sk xs \<Longrightarrow> \<forall>(c, p) \<in> set (zip (butlast xs) (tl xs)). parent sk c = Some p"
proof (induction rule: chain.induct)
  case (chain_stop n p)
  then show ?case by simp
next
  case (chain_step n p xs)
  from chain_length [OF chain_step.hyps(3)] have "xs \<noteq> []" by auto
  with chain_step show ?case by auto
qed

lemma chain_last_stop: "chain sk xs \<Longrightarrow> is_stop sk (last xs)"
  by (induction rule: chain.induct) auto

lemma chain_interior: "chain sk xs \<Longrightarrow> x \<in> set (butlast (tl xs)) \<Longrightarrow> \<not> is_stop sk x"
proof (induction rule: chain.induct)
  case (chain_stop n p)
  then show ?case by simp
next
  case (chain_step n p xs)
  from chain_length [OF chain_step.hyps(3)] have "xs \<noteq> []" by auto
  with chain_step show ?case by auto
qed

lemma chain_next:
  "chain sk xs \<Longrightarrow> m \<in> set (butlast xs) \<Longrightarrow> parent sk m = Some n
   \<Longrightarrow> n \<in> set xs \<and> (\<not> is_stop sk n \<longrightarrow> n \<in> set (butlast xs))"
proof (induction rule: chain.induct)
  case (chain_stop a p)
  then show ?case by auto
next
  case (chain_step a p xs)
  from chain_length [OF chain_step.hyps(3)] have ne: "xs \<noteq> []" by auto
  show ?case
  proof (cases "m = a")
    case True
    with chain_step.prems chain_step.hyps(1) have "n = p" by simp
    with ne show ?thesis by simp
  next
    case False
    with chain_step.prems(1) ne have "m \<in> set (butlast (p # xs))" by simp
    from chain_step.IH [OF this chain_step.prems(2)] ne show ?thesis by simp
  qed
qed

lemma chain_in_ids:
  "chain sk xs \<Longrightarrow> tree_shaped sk \<Longrightarrow> set xs \<subseteq> set (node_ids sk)"
  by (induction rule: chain.induct) (auto dest: parent_in_ids)



subsection \<open>Every node lies on a chain\<close>

lemma seed_segment:
  assumes "tree_shaped sk" "seg \<in> set (small_segments sk)"
  shows "chain sk seg \<and> hd seg \<in> set (seeds sk)"
  using assms segment_chain [OF assms(1)] by (auto simp: small_segments_def)

lemma non_root_on_chain:
  assumes ts: "tree_shaped sk"
  shows "parent sk n \<noteq> None \<Longrightarrow>
    \<exists>s \<in> set (seeds sk). n \<in> set (butlast (chain_up sk (length (nodes sk)) s))"
proof (induction "length (nodes sk) - the (depth sk (length (nodes sk)) n)" arbitrary: n rule: less_induct)
  case less
  from ts have d: "distinct (node_ids sk)" by (simp add: tree_shaped_def)
  show ?case
  proof (cases "length (children sk n) = 1")
    case False
    with less.prems have s: "n \<in> set (seeds sk)" by (simp add: seeds_iff [OF d])
    from segment_chain [OF ts s] chain_length [of sk "chain_up sk (length (nodes sk)) n"]
    have "n \<in> set (butlast (chain_up sk (length (nodes sk)) n))"
      by (cases "chain_up sk (length (nodes sk)) n") auto
    with s show ?thesis by blast
  next
    case True
    then obtain m where m: "children sk n = [m]"
      by (cases "children sk n") auto
    then have pm: "parent sk m = Some n"
      using children_iff [OF d, of m n] by simp
    from depth_parent [OF ts pm] obtain dn where
      dn: "depth sk (length (nodes sk)) n = Some dn" "depth sk (length (nodes sk)) m = Some (Suc dn)"
      by auto
    from depth_le [OF dn(2)] dn
    have "length (nodes sk) - the (depth sk (length (nodes sk)) m)
        < length (nodes sk) - the (depth sk (length (nodes sk)) n)"
      by simp
    from less.hyps [OF this] pm obtain s where
      s: "s \<in> set (seeds sk)" "m \<in> set (butlast (chain_up sk (length (nodes sk)) s))"
      by auto
    from less.prems have "n \<notin> set (roots sk)" by (simp add: roots_iff [OF d])
    with True have "\<not> is_stop sk n" by (simp add: is_stop_def)
    with chain_next [OF _ s(2) pm] segment_chain [OF ts s(1)]
    have "n \<in> set (butlast (chain_up sk (length (nodes sk)) s))" by blast
    with s(1) show ?thesis by blast
  qed
qed

lemma chain_split:
  assumes "chain sk xs"
  shows "xs = hd xs # butlast (tl xs) @ [last xs]"
proof -
  from chain_length [OF assms] obtain a b ys where "xs = a # b # ys"
    by (cases xs; cases "tl xs") auto
  then show ?thesis by (simp add: butlast_append)
qed

lemma root_ends_chain:
  assumes ts: "tree_shaped sk" and r: "r \<in> set (roots sk)" and c: "children sk r \<noteq> []"
  shows "\<exists>s \<in> set (seeds sk). last (chain_up sk (length (nodes sk)) s) = r"
proof -
  from ts have d: "distinct (node_ids sk)" by (simp add: tree_shaped_def)
  from c obtain m where "m \<in> set (children sk r)" by (cases "children sk r") auto
  then have pm: "parent sk m = Some r" by (simp add: children_iff [OF d])
  then have "parent sk m \<noteq> None" by simp
  from non_root_on_chain [OF ts this] obtain s where
    s: "s \<in> set (seeds sk)" "m \<in> set (butlast (chain_up sk (length (nodes sk)) s))"
    by auto
  let ?xs = "chain_up sk (length (nodes sk)) s"
  from segment_chain [OF ts s(1)] have ch: "chain sk ?xs" and hd: "hd ?xs = s" by simp_all
  from chain_next [OF ch s(2) pm] have "r \<in> set ?xs" by simp
  then have "r \<in> set (hd ?xs # butlast (tl ?xs) @ [last ?xs])"
    using chain_split [OF ch] by simp
  moreover from r have "is_stop sk r" by (simp add: is_stop_def)
  with chain_interior [OF ch] have "r \<notin> set (butlast (tl ?xs))" by blast
  moreover from r s(1) have "r \<noteq> s"
    by (auto simp: roots_iff [OF d] seeds_iff [OF d])
  ultimately have "last ?xs = r" using hd by auto
  with s(1) show ?thesis by blast
qed

lemma set_kept:
  "seg \<noteq> [] \<Longrightarrow> set (kept sk seg) = (if last seg \<in> set (roots sk) then set seg else set (butlast seg))"
  by (cases seg rule: rev_cases) (auto simp: kept_def)

lemma kept_covers:
  assumes ts: "tree_shaped sk" and n: "n \<in> set (node_ids sk)"
    and c: "n \<in> set (roots sk) \<longrightarrow> children sk n \<noteq> []"
  shows "\<exists>seg \<in> set (small_segments sk). n \<in> set (kept sk seg)"
proof (cases "n \<in> set (roots sk)")
  case True
  with c root_ends_chain [OF ts True] obtain s where
    s: "s \<in> set (seeds sk)" "last (chain_up sk (length (nodes sk)) s) = n"
    by auto
  from segment_chain [OF ts s(1)] chain_length [of sk "chain_up sk (length (nodes sk)) s"]
  have ne: "chain_up sk (length (nodes sk)) s \<noteq> []" by auto
  with s True have "n \<in> set (kept sk (chain_up sk (length (nodes sk)) s))"
    by (auto simp: set_kept)
  with s(1) show ?thesis by (auto simp: small_segments_def)
next
  case False
  from ts have d: "distinct (node_ids sk)" by (simp add: tree_shaped_def)
  from False n have "parent sk n \<noteq> None" by (simp add: roots_iff [OF d])
  from non_root_on_chain [OF ts this] obtain s where
    s: "s \<in> set (seeds sk)" "n \<in> set (butlast (chain_up sk (length (nodes sk)) s))"
    by auto
  then have ne: "chain_up sk (length (nodes sk)) s \<noteq> []" by auto
  from s(2) have "n \<in> set (chain_up sk (length (nodes sk)) s)" by (rule in_set_butlastD)
  with s(2) ne have "n \<in> set (kept sk (chain_up sk (length (nodes sk)) s))"
    by (simp add: set_kept)
  with s(1) show ?thesis by (auto simp: small_segments_def)
qed

lemma kept_in_ids:
  assumes "tree_shaped sk" "seg \<in> set (small_segments sk)"
  shows "set (kept sk seg) \<subseteq> set (node_ids sk)"
proof -
  from seed_segment [OF assms] have ch: "chain sk seg" by simp
  from chain_length [OF ch] have "seg \<noteq> []" by auto
  then have "set (kept sk seg) \<subseteq> set seg"
    by (auto simp: set_kept dest: in_set_butlastD)
  with chain_in_ids [OF ch assms(1)] show ?thesis by blast
qed

subsection \<open>Positions along one chain\<close>

lemma collect_map_Inr: "collect (map (\<lambda>x. Inr (f x)) xs) = Inr (map f xs)"
  by (induction xs) auto

lemma seg_dist_chain:
  assumes d: "distinct (node_ids sk)" and ch: "chain sk seg"
  shows "seg_dist sk seg = Inr (dists sk seg)"
proof -
  let ?g = "\<lambda>c. case lookup_row sk c of None \<Rightarrow> 0 | Some row \<Rightarrow> parent_dist row"
  have "edge_weight sk c p = Inr (?g c)" if "(c, p) \<in> set (zip (butlast seg) (tl seg))" for c p
  proof -
    from chain_links [OF ch] that have "parent sk c = Some p" by auto
    then obtain row where row: "row \<in> set (nodes sk)" "node_id row = c" "parent_id row = Some p"
      by (auto dest: parent_SomeD)
    from edge_weight_row [OF d row(1,3)] lookup_row_in [OF d row(1)] row(2)
    show ?thesis by simp
  qed
  then have eq: "map (\<lambda>(c, p). edge_weight sk c p) (zip (butlast seg) (tl seg))
      = map (\<lambda>cp. Inr (?g (fst cp))) (zip (butlast seg) (tl seg))"
    by (intro map_cong) auto
  have "seg_dist sk seg = Inr (map (\<lambda>cp. ?g (fst cp)) (zip (butlast seg) (tl seg)))"
    unfolding seg_dist_def eq by (rule collect_map_Inr)
  also have "map (\<lambda>cp. ?g (fst cp)) (zip (butlast seg) (tl seg)) = map ?g (map fst (zip (butlast seg) (tl seg)))"
    by (simp only: map_map comp_def)
  also have "map fst (zip (butlast seg) (tl seg)) = butlast seg"
    by (intro map_fst_zip) simp
  finally show ?thesis by (simp add: dists_def)
qed

lemma length_cumsum_from: "length (cumsum_from a xs) = length xs"
  by (induction xs arbitrary: a) auto

lemma length_norm_pos: "length (norm_pos ds) = Suc (length ds)"
  by (simp add: norm_pos_def cumsum_def length_cumsum_from Let_def)

lemma segment_positions_chain:
  assumes d: "distinct (node_ids sk)" and ch: "chain sk seg"
  shows "segment_positions sk seg = Inr (kept sk seg, kept_pos sk seg)"
proof -
  from chain_length [OF ch] have "seg \<noteq> []" by auto
  then obtain xs x where seg: "seg = xs @ [x]" by (cases seg rule: rev_cases) auto
  show ?thesis
    unfolding segment_positions_def seg_dist_chain [OF d ch]
    by (simp add: seg kept_def kept_pos_def)
qed

lemma length_kept:
  assumes "chain sk seg"
  shows "length (kept_pos sk seg) = length (kept sk seg)" and "kept sk seg \<noteq> []"
    and "last (kept sk seg) = hd seg"
proof -
  from chain_length [OF assms] obtain a b ys where seg: "seg = a # b # ys"
    by (cases seg; cases "tl seg") auto
  show "length (kept_pos sk seg) = length (kept sk seg)"
    by (simp add: kept_def kept_pos_def length_norm_pos dists_def seg)
  show "kept sk seg \<noteq> []"
    by (simp add: kept_def seg)
  show "last (kept sk seg) = hd seg"
    by (simp add: kept_def seg)
qed

subsection \<open>The dictionaries after the first loop\<close>


lemma updates_keys:
  "length vs = length ks \<Longrightarrow> fst ` set (AList.updates ks vs al) = fst ` set al \<union> set ks"
proof -
  assume "length vs = length ks"
  then have "dom (map_of (AList.updates ks vs al)) = dom (map_of al) \<union> set ks"
    by (simp add: updates_conv' Un_commute)
  then show ?thesis by (simp add: dom_map_of_conv_image_fst)
qed

lemma locate_loop_step:
  assumes "distinct (node_ids sk)" "chain sk seg"
  shows "locate_loop sk i (seg # segs) a b =
    locate_loop sk (Suc i) segs
      (AList.updates (kept sk seg) (replicate (length (kept sk seg)) i) a)
      (AList.updates (kept sk seg) (kept_pos sk seg) b)"
  by (simp add: segment_positions_chain [OF assms])

lemma locate_loop_succeeds:
  assumes d: "distinct (node_ids sk)"
  shows "\<forall>seg \<in> set segs. chain sk seg \<Longrightarrow> \<exists>a' b'. locate_loop sk i segs a b = Inr (a', b')"
proof (induction segs arbitrary: i a b)
  case Nil
  then show ?case by simp
next
  case (Cons seg segs)
  then have ch: "chain sk seg" and rest: "\<forall>s \<in> set segs. chain sk s" by simp_all
  show ?case
    unfolding locate_loop_step [OF d ch] by (rule Cons.IH [OF rest])
qed

lemma locate_loop_keys:
  assumes d: "distinct (node_ids sk)"
  shows "\<forall>seg \<in> set segs. chain sk seg \<Longrightarrow> locate_loop sk i segs a b = Inr (a', b') \<Longrightarrow>
      fst ` set a' = fst ` set a \<union> (\<Union>seg \<in> set segs. set (kept sk seg))
      \<and> fst ` set b' = fst ` set b \<union> (\<Union>seg \<in> set segs. set (kept sk seg))"
proof (induction segs arbitrary: i a b)
  case Nil
  then show ?case by simp
next
  case (Cons seg segs)
  then have ch: "chain sk seg" and rest: "\<forall>s \<in> set segs. chain sk s" by simp_all
  let ?a = "AList.updates (kept sk seg) (replicate (length (kept sk seg)) i) a"
  let ?b = "AList.updates (kept sk seg) (kept_pos sk seg) b"
  from Cons.prems(2) have run: "locate_loop sk (Suc i) segs ?a ?b = Inr (a', b')"
    unfolding locate_loop_step [OF d ch] .
  have ka: "fst ` set ?a = fst ` set a \<union> set (kept sk seg)"
    by (simp add: updates_keys)
  have kb: "fst ` set ?b = fst ` set b \<union> set (kept sk seg)"
    by (simp add: updates_keys length_kept(1) [OF ch])
  from Cons.IH [OF rest run] show ?case
    unfolding ka kb by (simp add: Un_assoc)
qed


lemma locate_loop_skip:
  assumes d: "distinct (node_ids sk)"
  shows "\<forall>seg \<in> set segs. chain sk seg \<Longrightarrow> \<forall>seg \<in> set segs. n \<notin> set (kept sk seg) \<Longrightarrow>
    locate_loop sk i segs a b = Inr (a', b') \<Longrightarrow> map_of a' n = map_of a n \<and> map_of b' n = map_of b n"
proof (induction segs arbitrary: i a b)
  case Nil
  then show ?case by simp
next
  case (Cons seg segs)
  then have ch: "chain sk seg" and rest: "\<forall>s \<in> set segs. chain sk s"
    and nk: "n \<notin> set (kept sk seg)" and nrest: "\<forall>s \<in> set segs. n \<notin> set (kept sk s)"
    by simp_all
  let ?a = "AList.updates (kept sk seg) (replicate (length (kept sk seg)) i) a"
  let ?b = "AList.updates (kept sk seg) (kept_pos sk seg) b"
  from Cons.prems(3) have "locate_loop sk (Suc i) segs ?a ?b = Inr (a', b')"
    unfolding locate_loop_step [OF d ch] .
  from Cons.IH [OF rest nrest this] nk show ?case
    by (simp add: updates_conv')
qed

lemma map_upds_const:
  "n \<in> set ks \<Longrightarrow> (m(ks [\<mapsto>] replicate (length ks) i)) n = Some i"
proof (induction ks arbitrary: m)
  case Nil
  then show ?case by simp
next
  case (Cons k ks)
  show ?case
  proof (cases "n \<in> set ks")
    case True
    from Cons.IH [OF True] show ?thesis by simp
  next
    case False
    with Cons.prems show ?thesis by simp
  qed
qed

lemma map_upds_indep:
  "n \<in> set ks \<Longrightarrow> length vs = length ks \<Longrightarrow> (m(ks [\<mapsto>] vs)) n = (m'(ks [\<mapsto>] vs)) n"
proof (induction ks arbitrary: m m' vs)
  case Nil
  then show ?case by simp
next
  case (Cons k ks)
  then obtain v vs' where vs: "vs = v # vs'" "length vs' = length ks" by (cases vs) auto
  show ?case
  proof (cases "n \<in> set ks")
    case True
    from Cons.IH [OF True vs(2)] show ?thesis by (simp add: vs)
  next
    case False
    with Cons.prems show ?thesis by (simp add: vs)
  qed
qed

lemma map_upds_last:
  "ks \<noteq> [] \<Longrightarrow> length vs = length ks \<Longrightarrow> (m(ks [\<mapsto>] vs)) (last ks) = Some (last vs)"
proof (induction ks arbitrary: m vs)
  case Nil
  then show ?case by simp
next
  case (Cons k ks)
  then obtain v vs' where vs: "vs = v # vs'" "length vs' = length ks" by (cases vs) auto
  show ?case
  proof (cases "ks = []")
    case True
    with vs show ?thesis by simp
  next
    case False
    with vs(2) have "vs' \<noteq> []" by auto
    with Cons.IH [OF False vs(2)] False show ?thesis by (simp add: vs)
  qed
qed

lemma locate_loop_lookup:
  assumes d: "distinct (node_ids sk)"
  shows "\<forall>s \<in> set (pre @ seg # post). chain sk s \<Longrightarrow> n \<in> set (kept sk seg)
    \<Longrightarrow> \<forall>s \<in> set post. n \<notin> set (kept sk s)
    \<Longrightarrow> locate_loop sk i (pre @ seg # post) a b = Inr (a', b')
    \<Longrightarrow> map_of a' n = Some (i + length pre)
      \<and> map_of b' n = (Map.empty(kept sk seg [\<mapsto>] kept_pos sk seg)) n"
proof (induction pre arbitrary: i a b)
  case Nil
  then have ch: "chain sk seg" and rest: "\<forall>s \<in> set post. chain sk s" by simp_all
  let ?a = "AList.updates (kept sk seg) (replicate (length (kept sk seg)) i) a"
  let ?b = "AList.updates (kept sk seg) (kept_pos sk seg) b"
  from Nil.prems(4) have "locate_loop sk (Suc i) post ?a ?b = Inr (a', b')"
    unfolding append_Nil locate_loop_step [OF d ch] .
  from locate_loop_skip [OF d rest Nil.prems(3) this]
  have "map_of a' n = map_of ?a n" "map_of b' n = map_of ?b n" by simp_all
  moreover have "map_of ?a n = Some i"
    using Nil.prems(2) by (simp add: updates_conv' map_upds_const)
  moreover have "map_of ?b n = (Map.empty(kept sk seg [\<mapsto>] kept_pos sk seg)) n"
    unfolding updates_conv'
    by (rule map_upds_indep [OF Nil.prems(2) length_kept(1) [OF ch]])
  ultimately show ?case by simp
next
  case (Cons x pre)
  then have ch: "chain sk x" by simp
  let ?a = "AList.updates (kept sk x) (replicate (length (kept sk x)) i) a"
  let ?b = "AList.updates (kept sk x) (kept_pos sk x) b"
  from Cons.prems(4) have "locate_loop sk (Suc i) (pre @ seg # post) ?a ?b = Inr (a', b')"
    unfolding append_Cons locate_loop_step [OF d ch] .
  from Cons.IH [OF _ Cons.prems(2,3) this] Cons.prems(1) show ?case by simp
qed

subsection \<open>The second and the third loop\<close>

lemma sections_loop_Inr:
  "sections_loop sk r i segs = Inr ss \<Longrightarrow>
     length ss = length segs \<and> (\<forall>j < length segs. make_section sk r (i + j) (segs ! j) = Inr (ss ! j))"
proof (induction segs arbitrary: i ss)
  case Nil
  then show ?case by simp
next
  case (Cons seg segs)
  from Cons.prems obtain s ss' where s: "make_section sk r i seg = Inr s"
    and ss': "sections_loop sk r (Suc i) segs = Inr ss'" and ss: "ss = s # ss'"
    by (auto split: sum.splits)
  from Cons.IH [OF ss'] have len: "length ss' = length segs"
    and each: "\<forall>j < length segs. make_section sk r (Suc i + j) (segs ! j) = Inr (ss' ! j)"
    by simp_all
  have "make_section sk r (i + j) ((seg # segs) ! j) = Inr (ss ! j)" if "j < length (seg # segs)" for j
  proof (cases j)
    case 0
    with s ss show ?thesis by simp
  next
    case (Suc j')
    with that each ss show ?thesis by simp
  qed
  with len ss show ?case by simp
qed

lemma sections_loop_succeeds:
  "\<forall>seg \<in> set segs. \<forall>i. \<exists>s. make_section sk r i seg = Inr s \<Longrightarrow> \<exists>ss. sections_loop sk r i segs = Inr ss"
proof (induction segs arbitrary: i)
  case Nil
  then show ?case by simp
next
  case (Cons seg segs)
  from Cons.prems have "\<forall>i. \<exists>s. make_section sk r i seg = Inr s" by simp
  then obtain s where s: "make_section sk r i seg = Inr s" by blast
  from Cons.prems have "\<forall>seg \<in> set segs. \<forall>i. \<exists>s. make_section sk r i seg = Inr s" by simp
  from Cons.IH [OF this, of "Suc i"] obtain ss where "sections_loop sk r (Suc i) segs = Inr ss" ..
  with s show ?case by simp
qed

lemma segment_length_chain:
  assumes "distinct (node_ids sk)" "chain sk seg"
  shows "segment_length sk seg = Inr (sum_list (dists sk seg))"
  by (simp add: segment_length_def seg_dist_chain [OF assms])

lemma seg_radii_in_ids:
  assumes "set seg \<subseteq> set (node_ids sk)"
  shows "\<exists>rs. seg_radii sk seg = Inr rs"
proof -
  have "(case lookup_row sk n of None \<Rightarrow> Inl KeyError | Some row \<Rightarrow> Inr (radius row))
      = Inr (radius (the (lookup_row sk n)))" if "n \<in> set seg" for n
    using that assms lookup_row_None [of sk n] by (auto split: option.splits)
  then have "map (\<lambda>n. case lookup_row sk n of None \<Rightarrow> Inl KeyError | Some row \<Rightarrow> Inr (radius row)) seg
      = map (\<lambda>n. Inr (radius (the (lookup_row sk n)))) seg"
    by (intro map_cong) auto
  then show ?thesis
    unfolding seg_radii_def by (simp only: collect_map_Inr) simp
qed

lemma nseg_of_in_range:
  assumes "0 < r" and "0 < len" and "len < 32768 * r"
  shows "\<exists>n. nseg_of len r = Inr n \<and> 1 \<le> n \<and> n \<le> 32767"
proof -
  from assms have q: "0 \<le> len / (r * 2)" "len / (r * 2) < 16384"
    by (simp_all add: divide_less_eq)
  then have "0 \<le> \<lfloor>len / (r * 2)\<rfloor>" "\<lfloor>len / (r * 2)\<rfloor> < 16384"
    by (simp_all add: floor_less_iff)
  with q(1) assms(1) show ?thesis
    by (simp add: nseg_of_def py_int_def)
qed

lemma make_section_chain:
  assumes ts: "tree_shaped sk" and ch: "chain sk seg" and r: "0 < r"
    and pos: "0 < sum_list (dists sk seg)" and bound: "sum_list (dists sk seg) < 32768 * r"
  shows "\<exists>s. make_section sk r i seg = Inr s"
proof -
  from ts have d: "distinct (node_ids sk)" by (simp add: tree_shaped_def)
  from seg_radii_in_ids [OF chain_in_ids [OF ch ts]] obtain rs where rs: "seg_radii sk seg = Inr rs" ..
  from nseg_of_in_range [OF r pos bound] obtain n where
    n: "nseg_of (sum_list (dists sk seg)) r = Inr n" "1 \<le> n" "n \<le> 32767" by blast
  from rs n pos show ?thesis
    by (simp add: make_section_def segment_length_chain [OF d ch])
qed

lemma make_section_fields:
  "make_section sk r i seg = Inr s \<Longrightarrow>
     segment_length sk seg = Inr (sec_L s) \<and> nseg_of (sec_L s) r = Inr (sec_nseg s)
     \<and> sec_parent s = None \<and> sec_name s = i
     \<and> 0 < sec_L s \<and> 1 \<le> sec_nseg s \<and> sec_nseg s \<le> 32767"
  by (auto simp: make_section_def split: sum.splits if_splits)

text \<open>The section that the third loop leaves at index \<open>k\<close>.\<close>

lemma connect_loop_Inr:
  "connect_loop sk n2s i segs secs = Inr secs' \<Longrightarrow> i + length segs \<le> length secs \<Longrightarrow>
     length secs' = length secs
     \<and> (\<forall>k < length secs. k < i \<or> i + length segs \<le> k \<longrightarrow> secs' ! k = secs ! k)
     \<and> (\<forall>j < length segs.
           (last (segs ! j) \<in> set (roots sk) \<longrightarrow> secs' ! (i + j) = secs ! (i + j))
           \<and> (last (segs ! j) \<notin> set (roots sk) \<longrightarrow>
                (\<exists>p. map_of n2s (last (segs ! j)) = Some p \<and> p < length secs
                   \<and> secs' ! (i + j) = (secs ! (i + j))\<lparr>sec_parent := Some (p, 1)\<rparr>)))"
proof (induction segs arbitrary: i secs)
  case Nil
  then show ?case by simp
next
  case (Cons seg segs)
  show ?case
  proof (cases "last seg \<in> set (roots sk)")
    case True
    with Cons.prems(1) have run: "connect_loop sk n2s (Suc i) segs secs = Inr secs'"
      by (simp split: if_splits)
    from Cons.prems(2) have le: "Suc i + length segs \<le> length secs" by simp
    from Cons.IH [OF run le] have len: "length secs' = length secs"
      and out: "\<forall>k < length secs. k < Suc i \<or> Suc i + length segs \<le> k \<longrightarrow> secs' ! k = secs ! k"
      and ins: "\<forall>j < length segs.
           (last (segs ! j) \<in> set (roots sk) \<longrightarrow> secs' ! (Suc i + j) = secs ! (Suc i + j))
           \<and> (last (segs ! j) \<notin> set (roots sk) \<longrightarrow>
                (\<exists>p. map_of n2s (last (segs ! j)) = Some p \<and> p < length secs
                   \<and> secs' ! (Suc i + j) = (secs ! (Suc i + j))\<lparr>sec_parent := Some (p, 1)\<rparr>))"
      by blast+
    have i: "secs' ! i = secs ! i" using out le by simp
    have A: "\<forall>k < length secs. k < i \<or> i + length (seg # segs) \<le> k \<longrightarrow> secs' ! k = secs ! k"
      using out by auto
    have B: "(last ((seg # segs) ! j) \<in> set (roots sk) \<longrightarrow> secs' ! (i + j) = secs ! (i + j))
           \<and> (last ((seg # segs) ! j) \<notin> set (roots sk) \<longrightarrow>
                (\<exists>p. map_of n2s (last ((seg # segs) ! j)) = Some p \<and> p < length secs
                   \<and> secs' ! (i + j) = (secs ! (i + j))\<lparr>sec_parent := Some (p, 1)\<rparr>))"
      if "j < length (seg # segs)" for j
    proof (cases j)
      case 0
      with True i show ?thesis by simp
    next
      case (Suc j')
      with that ins show ?thesis by simp
    qed
    from len A B show ?thesis by blast
  next
    case False
    with Cons.prems(1) obtain p where p: "map_of n2s (last seg) = Some p" "p < length secs"
      and run: "connect_loop sk n2s (Suc i) segs (secs[i := (secs ! i)\<lparr>sec_parent := Some (p, 1)\<rparr>]) = Inr secs'"
      by (auto split: if_splits option.splits)
    let ?secs = "secs[i := (secs ! i)\<lparr>sec_parent := Some (p, 1)\<rparr>]"
    from Cons.prems(2) have le: "Suc i + length segs \<le> length ?secs" by simp
    from Cons.IH [OF run le] have len: "length secs' = length secs"
      and out: "\<forall>k < length secs. k < Suc i \<or> Suc i + length segs \<le> k \<longrightarrow> secs' ! k = ?secs ! k"
      and ins: "\<forall>j < length segs.
           (last (segs ! j) \<in> set (roots sk) \<longrightarrow> secs' ! (Suc i + j) = ?secs ! (Suc i + j))
           \<and> (last (segs ! j) \<notin> set (roots sk) \<longrightarrow>
                (\<exists>p. map_of n2s (last (segs ! j)) = Some p \<and> p < length secs
                   \<and> secs' ! (Suc i + j) = (?secs ! (Suc i + j))\<lparr>sec_parent := Some (p, 1)\<rparr>))"
      by simp_all
    from Cons.prems(2) have ilt: "i < length secs" by simp
    have i: "secs' ! i = (secs ! i)\<lparr>sec_parent := Some (p, 1)\<rparr>"
      using out ilt by simp
    have A: "\<forall>k < length secs. k < i \<or> i + length (seg # segs) \<le> k \<longrightarrow> secs' ! k = secs ! k"
      using out by auto
    have B: "(last ((seg # segs) ! j) \<in> set (roots sk) \<longrightarrow> secs' ! (i + j) = secs ! (i + j))
           \<and> (last ((seg # segs) ! j) \<notin> set (roots sk) \<longrightarrow>
                (\<exists>p. map_of n2s (last ((seg # segs) ! j)) = Some p \<and> p < length secs
                   \<and> secs' ! (i + j) = (secs ! (i + j))\<lparr>sec_parent := Some (p, 1)\<rparr>))"
      if "j < length (seg # segs)" for j
    proof (cases j)
      case 0
      with False i p show ?thesis by simp
    next
      case (Suc j')
      with that ins show ?thesis by simp
    qed
    from len A B show ?thesis by blast
  qed
qed

lemma connect_loop_succeeds:
  assumes nf: "\<not> sec_ix_is_float sk n2s"
  shows "\<forall>seg \<in> set segs. seg \<noteq> [] \<and> (last seg \<notin> set (roots sk) \<longrightarrow>
       last seg \<in> set (node_ids sk) \<and> (\<exists>p. map_of n2s (last seg) = Some p \<and> p < length secs))
   \<Longrightarrow> \<exists>secs'. connect_loop sk n2s i segs secs = Inr secs'"
proof (induction segs arbitrary: i secs)
  case Nil
  then show ?case by simp
next
  case (Cons seg segs)
  then have ne: "seg \<noteq> []" by simp
  show ?case
  proof (cases "last seg \<in> set (roots sk)")
    case True
    with ne Cons.IH [of secs "Suc i"] Cons.prems show ?thesis by simp
  next
    case False
    with Cons.prems obtain p where p: "map_of n2s (last seg) = Some p" "p < length secs"
      and inid: "last seg \<in> set (node_ids sk)"
      by auto
    from inid obtain row where "lookup_row sk (last seg) = Some row"
      using lookup_row_None [of sk "last seg"] by auto
    moreover have "\<exists>secs'. connect_loop sk n2s (Suc i) segs (secs[i := (secs ! i)\<lparr>sec_parent := Some (p, 1)\<rparr>]) = Inr secs'"
      using Cons.prems by (intro Cons.IH) simp
    ultimately show ?thesis using ne False p nf by simp
  qed
qed

text \<open>
  A Section is connected only when every node of the table has a section index: with one
  node missing, the column \<open>sec_ix\<close> holds floats and the lookup of the parent Section
  raises.
\<close>

lemma connect_loop_not_float:
  "connect_loop sk n2s i segs secs = Inr secs' \<Longrightarrow> seg \<in> set segs \<Longrightarrow>
     last seg \<notin> set (roots sk) \<Longrightarrow> \<not> sec_ix_is_float sk n2s"
proof (induction segs arbitrary: i secs)
  case Nil
  then show ?case by simp
next
  case (Cons s segs)
  show ?case
  proof (cases "s = seg")
    case True
    with Cons.prems(1,3) show ?thesis
      by (auto split: if_splits option.splits)
  next
    case False
    with Cons.prems(2) have mem: "seg \<in> set segs" by simp
    from Cons.prems(1) obtain secs1 where "connect_loop sk n2s (Suc i) segs secs1 = Inr secs'"
      by (auto split: if_splits option.splits)
    from Cons.IH [OF this mem Cons.prems(3)] show ?thesis .
  qed
qed

subsection \<open>The model that construction returns\<close>

lemma generate_sections_Inr:
  "generate_sections sk r = Inr m \<Longrightarrow>
     \<exists>secs. locate_loop sk 0 (small_segments sk) [] [] = Inr (node2sec m, node2pos m)
       \<and> sections_loop sk r 0 (small_segments sk) = Inr secs
       \<and> connect_loop sk (node2sec m) 0 (small_segments sk) secs = Inr (sections m)
       \<and> skeleton m = sk"
  by (auto simp: generate_sections_def split: sum.splits prod.splits)

lemma construct_Inr:
  "construct sk r = Inr m \<Longrightarrow> generate_sections sk r = Inr m"
  by (auto simp: construct_def split: sum.splits)

lemma last_cumsum_from: "last (a # cumsum_from a xs) = a + sum_list xs"
proof (induction xs arbitrary: a)
  case Nil
  then show ?case by simp
next
  case (Cons x xs)
  from Cons.IH [of "a + x"] show ?case by (simp add: add.assoc)
qed

lemma last_norm_pos: "last (norm_pos ds) = np_divide (sum_list ds) (sum_list ds)"
proof -
  have "norm_pos ds = map (\<lambda>c. np_divide c (sum_list ds)) (0 # cumsum_from 0 (rev ds))"
    by (simp add: norm_pos_def cumsum_def sum_list_rev)
  also have "last \<dots> = np_divide (last (0 # cumsum_from 0 (rev ds))) (sum_list ds)"
    by (simp only: last_map list.distinct(2) not_False_eq_True)
  also have "last (0 # cumsum_from 0 (rev ds)) = sum_list ds"
    by (simp only: last_cumsum_from) (simp add: sum_list_rev)
  finally show ?thesis .
qed

lemma last_kept_pos:
  assumes "chain sk seg"
  shows "last (kept_pos sk seg) = np_divide (sum_list (dists sk seg)) (sum_list (dists sk seg))"
proof -
  from chain_length [OF assms] have "2 \<le> length (norm_pos (dists sk seg))"
    by (simp add: length_norm_pos dists_def)
  then have "last (tl (norm_pos (dists sk seg))) = last (norm_pos (dists sk seg))"
    by (cases "norm_pos (dists sk seg)"; cases "tl (norm_pos (dists sk seg))") auto
  then show ?thesis
    by (simp add: kept_pos_def last_norm_pos)
qed

text \<open>The branch point that bounds a chain is the distal end of exactly one chain.\<close>

lemma branch_point_location:
  assumes ts: "tree_shaped sk"
    and run: "locate_loop sk 0 (small_segments sk) [] [] = Inr (n2s, n2p)"
    and seg: "seg \<in> set (small_segments sk)" and nr: "last seg \<notin> set (roots sk)"
  shows "\<exists>j < length (small_segments sk).
           hd (small_segments sk ! j) = last seg
           \<and> map_of n2s (last seg) = Some j
           \<and> map_of n2p (last seg) =
               Some (np_divide (sum_list (dists sk (small_segments sk ! j)))
                               (sum_list (dists sk (small_segments sk ! j))))"
proof -
  let ?segs = "small_segments sk" and ?b = "last seg"
  let ?N = "length (nodes sk)"
  from ts have d: "distinct (node_ids sk)" by (simp add: tree_shaped_def)
  have chains: "\<forall>s \<in> set ?segs. chain sk s"
    using seed_segment [OF ts] by blast
  from seed_segment [OF ts seg] have ch: "chain sk seg" by simp
  from chain_last_stop [OF ch] nr have two: "2 \<le> length (children sk ?b)"
    by (simp add: is_stop_def)
  from chain_length [OF ch] have "seg \<noteq> []" by auto
  with chain_in_ids [OF ch ts] have "?b \<in> set (node_ids sk)" by auto
  with nr have "parent sk ?b \<noteq> None" by (simp add: roots_iff [OF d])
  with two have "?b \<in> set (seeds sk)" by (simp add: seeds_iff [OF d])
  then obtain j where j: "j < length (seeds sk)" "seeds sk ! j = ?b"
    by (auto simp: in_set_conv_nth)
  then have jl: "j < length ?segs" and sj: "?segs ! j = chain_up sk ?N ?b"
    by (simp_all add: small_segments_def)
  from chains jl have chj: "chain sk (?segs ! j)" by simp
  from segment_chain [OF ts \<open>?b \<in> set (seeds sk)\<close>] sj have hdj: "hd (?segs ! j) = ?b" by simp
  from length_kept [OF chj] hdj have lk: "last (kept sk (?segs ! j)) = ?b"
    and ne: "kept sk (?segs ! j) \<noteq> []"
    and len: "length (kept_pos sk (?segs ! j)) = length (kept sk (?segs ! j))"
    by simp_all
  then have inj: "?b \<in> set (kept sk (?segs ! j))" by (metis last_in_set)
  have others: "?b \<notin> set (kept sk (?segs ! k))" if k: "k < length ?segs" "k \<noteq> j" for k
  proof
    assume mem: "?b \<in> set (kept sk (?segs ! k))"
    from chains k(1) have chk: "chain sk (?segs ! k)" by simp
    from chain_length [OF chk] have nek: "?segs ! k \<noteq> []" by auto
    from k(1) have "?segs ! k = chain_up sk ?N (seeds sk ! k)" "seeds sk ! k \<in> set (seeds sk)"
      by (simp_all add: small_segments_def)
    with segment_chain [OF ts] have hdk: "hd (?segs ! k) = seeds sk ! k" by simp
    from k(1) have "k < length (seeds sk)" by (simp add: small_segments_def)
    with nth_eq_iff_index_eq [OF distinct_seeds [OF d] this j(1)] k(2) j(2)
    have "seeds sk ! k \<noteq> ?b" by simp
    with hdk have nhd: "?b \<noteq> hd (?segs ! k)" by simp
    from chain_last_stop [OF ch] chain_interior [OF chk]
    have nin: "?b \<notin> set (butlast (tl (?segs ! k)))" by blast
    show False
    proof (cases "last (?segs ! k) \<in> set (roots sk)")
      case True
      with mem nek have "?b \<in> set (?segs ! k)" by (simp add: set_kept)
      then have "?b \<in> set (hd (?segs ! k) # butlast (tl (?segs ! k)) @ [last (?segs ! k)])"
        using chain_split [OF chk] by simp
      with nhd nin have "?b = last (?segs ! k)" by simp
      with True nr show False by simp
    next
      case False
      with mem nek have "?b \<in> set (butlast (?segs ! k))" by (simp add: set_kept)
      moreover have "butlast (?segs ! k) = hd (?segs ! k) # butlast (tl (?segs ! k))"
        using chain_split [OF chk] by (metis butlast_snoc append_Cons)
      ultimately show False using nhd nin by simp
    qed
  qed
  have split: "?segs = take j ?segs @ ?segs ! j # drop (Suc j) ?segs"
    using jl by (simp add: id_take_nth_drop)
  have post: "\<forall>s \<in> set (drop (Suc j) ?segs). ?b \<notin> set (kept sk s)"
  proof
    fix s assume "s \<in> set (drop (Suc j) ?segs)"
    then obtain q where "q < length ?segs - Suc j" "s = ?segs ! (Suc j + q)"
      by (auto simp: in_set_conv_nth)
    with others [of "Suc j + q"] show "?b \<notin> set (kept sk s)" by simp
  qed
  have "map_of n2s ?b = Some (0 + length (take j ?segs))
      \<and> map_of n2p ?b = (Map.empty(kept sk (?segs ! j) [\<mapsto>] kept_pos sk (?segs ! j))) ?b"
  proof (rule locate_loop_lookup [OF d _ inj post])
    show "\<forall>s\<in>set (take j ?segs @ ?segs ! j # drop (Suc j) ?segs). chain sk s"
      using chains split by simp
    show "locate_loop sk 0 (take j ?segs @ ?segs ! j # drop (Suc j) ?segs) [] [] = Inr (n2s, n2p)"
      using run split by simp
  qed
  moreover have "(Map.empty(kept sk (?segs ! j) [\<mapsto>] kept_pos sk (?segs ! j))) ?b
      = Some (last (kept_pos sk (?segs ! j)))"
    using map_upds_last [OF ne len, of Map.empty] lk by simp
  ultimately have "map_of n2s ?b = Some j"
    and "map_of n2p ?b = Some (np_divide (sum_list (dists sk (?segs ! j))) (sum_list (dists sk (?segs ! j))))"
    using jl by (simp_all add: last_kept_pos [OF chj])
  with jl hdj show ?thesis by blast
qed

lemma np_divide_self: "t \<noteq> 0 \<Longrightarrow> np_divide t t = Fin 1"
  by (simp add: np_divide_def)

lemma connected_not_float:
  assumes "generate_sections sk r = Inr m" and "seg \<in> set (small_segments sk)"
    and "last seg \<notin> set (roots sk)"
  shows "\<not> sec_ix_is_float sk (node2sec m)"
proof -
  from generate_sections_Inr [OF assms(1)] obtain secs where
    "connect_loop sk (node2sec m) 0 (small_segments sk) secs = Inr (sections m)" by blast
  from connect_loop_not_float [OF this assms(2,3)] show ?thesis .
qed

lemma built_sections:
  assumes ts: "tree_shaped sk" and gen: "generate_sections sk r = Inr m"
  shows "length (sections m) = length (small_segments sk)"
    and "\<forall>i < length (small_segments sk). sec_L (sections m ! i) = sum_list (dists sk (small_segments sk ! i))
           \<and> 0 < sec_L (sections m ! i)"
    and "\<forall>i < length (small_segments sk).
        (last (small_segments sk ! i) \<in> set (roots sk) \<longrightarrow> sec_parent (sections m ! i) = None)
        \<and> (last (small_segments sk ! i) \<notin> set (roots sk) \<longrightarrow>
            (\<exists>p. map_of (node2sec m) (last (small_segments sk ! i)) = Some p \<and> p < length (sections m)
               \<and> sec_parent (sections m ! i) = Some (p, 1)))"
proof -
  let ?segs = "small_segments sk"
  from ts have d: "distinct (node_ids sk)" by (simp add: tree_shaped_def)
  from generate_sections_Inr [OF gen] obtain secs where
    secs: "sections_loop sk r 0 ?segs = Inr secs"
    and con: "connect_loop sk (node2sec m) 0 ?segs secs = Inr (sections m)"
    by blast
  from sections_loop_Inr [OF secs] have len: "length secs = length ?segs"
    and mk: "\<forall>j < length ?segs. make_section sk r j (?segs ! j) = Inr (secs ! j)"
    by simp_all
  from len have le: "0 + length ?segs \<le> length secs" by simp
  from connect_loop_Inr [OF con le] have len': "length (sections m) = length secs"
    and each: "\<forall>j < length ?segs.
           (last (?segs ! j) \<in> set (roots sk) \<longrightarrow> sections m ! (0 + j) = secs ! (0 + j))
           \<and> (last (?segs ! j) \<notin> set (roots sk) \<longrightarrow>
                (\<exists>p. map_of (node2sec m) (last (?segs ! j)) = Some p \<and> p < length secs
                   \<and> sections m ! (0 + j) = (secs ! (0 + j))\<lparr>sec_parent := Some (p, 1)\<rparr>))"
    by blast+
  show "length (sections m) = length ?segs" using len len' by simp
  have fields: "sec_L (secs ! j) = sum_list (dists sk (?segs ! j)) \<and> sec_parent (secs ! j) = None
      \<and> 0 < sec_L (secs ! j)"
    if "j < length ?segs" for j
  proof -
    from that have "chain sk (?segs ! j)" using seed_segment [OF ts] by simp
    from segment_length_chain [OF d this] make_section_fields [of sk r j "?segs ! j" "secs ! j"] mk that
    show ?thesis by simp
  qed
  have step: "sec_L (sections m ! i) = sum_list (dists sk (?segs ! i))
      \<and> 0 < sec_L (sections m ! i)
      \<and> (last (?segs ! i) \<in> set (roots sk) \<longrightarrow> sec_parent (sections m ! i) = None)
      \<and> (last (?segs ! i) \<notin> set (roots sk) \<longrightarrow>
            (\<exists>p. map_of (node2sec m) (last (?segs ! i)) = Some p \<and> p < length (sections m)
               \<and> sec_parent (sections m ! i) = Some (p, 1)))"
    if i: "i < length ?segs" for i
  proof (cases "last (?segs ! i) \<in> set (roots sk)")
    case True
    with each i have "sections m ! i = secs ! i" by simp
    with fields [OF i] True show ?thesis by simp
  next
    case False
    with each i obtain p where p: "map_of (node2sec m) (last (?segs ! i)) = Some p" "p < length secs"
      "sections m ! i = (secs ! i)\<lparr>sec_parent := Some (p, 1)\<rparr>"
      by auto
    with fields [OF i] False len' show ?thesis by simp
  qed
  show "\<forall>i < length ?segs. sec_L (sections m ! i) = sum_list (dists sk (?segs ! i))
           \<and> 0 < sec_L (sections m ! i)"
    using step by blast
  show "\<forall>i < length ?segs.
        (last (?segs ! i) \<in> set (roots sk) \<longrightarrow> sec_parent (sections m ! i) = None)
        \<and> (last (?segs ! i) \<notin> set (roots sk) \<longrightarrow>
            (\<exists>p. map_of (node2sec m) (last (?segs ! i)) = Some p \<and> p < length (sections m)
               \<and> sec_parent (sections m ! i) = Some (p, 1)))"
    using step by blast
qed

text \<open>
  Claim C2. For a tree-shaped skeleton, one Section is built per Segment. A Section whose
  Segment ends at a root is left unconnected. Every other Section is connected to the
  Section that the location map gives for the branch point ending its Segment, which is
  the Section whose Segment starts at that branch point. \<open>connect\<close> is called without
  a position, so the connection is at position 1 of the parent Section, its distal end;
  and 1 is the branch point's resolved position, the parent Section having a length
  greater than 0.
\<close>

theorem sections_connect_to_parent_section:
  assumes "tree_shaped sk" and "construct sk r = Inr m"
  shows "length (sections m) = length (small_segments sk)
    \<and> (\<forall>i < length (small_segments sk).
        (last (small_segments sk ! i) \<in> set (roots sk) \<longrightarrow> sec_parent (sections m ! i) = None)
        \<and> (last (small_segments sk ! i) \<notin> set (roots sk) \<longrightarrow>
            (\<exists>j < length (sections m).
               hd (small_segments sk ! j) = last (small_segments sk ! i)
               \<and> map_of (node2sec m) (last (small_segments sk ! i)) = Some j
               \<and> map_of (node2pos m) (last (small_segments sk ! i)) = Some (Fin 1)
               \<and> location m (last (small_segments sk ! i)) = Inr (j, Fin 1)
               \<and> sec_parent (sections m ! i) = Some (j, 1))))"
proof -
  let ?segs = "small_segments sk"
  from assms(2) have gen: "generate_sections sk r = Inr m" by (rule construct_Inr)
  note b = built_sections [OF assms(1) gen]
  from generate_sections_Inr [OF gen]
  have run: "locate_loop sk 0 ?segs [] [] = Inr (node2sec m, node2pos m)"
    and sk: "skeleton m = sk" by blast+
  have "(last (?segs ! i) \<in> set (roots sk) \<longrightarrow> sec_parent (sections m ! i) = None)
        \<and> (last (?segs ! i) \<notin> set (roots sk) \<longrightarrow>
            (\<exists>j < length (sections m).
               hd (?segs ! j) = last (?segs ! i)
               \<and> map_of (node2sec m) (last (?segs ! i)) = Some j
               \<and> map_of (node2pos m) (last (?segs ! i)) = Some (Fin 1)
               \<and> location m (last (?segs ! i)) = Inr (j, Fin 1)
               \<and> sec_parent (sections m ! i) = Some (j, 1)))"
    if i: "i < length ?segs" for i
  proof (cases "last (?segs ! i) \<in> set (roots sk)")
    case True
    with b(3) i show ?thesis by simp
  next
    case False
    from i have mem: "?segs ! i \<in> set ?segs" by simp
    from branch_point_location [OF assms(1) run mem False] obtain j where
      j: "j < length ?segs" "hd (?segs ! j) = last (?segs ! i)"
        "map_of (node2sec m) (last (?segs ! i)) = Some j"
        "map_of (node2pos m) (last (?segs ! i)) =
           Some (np_divide (sum_list (dists sk (?segs ! j))) (sum_list (dists sk (?segs ! j))))"
      by blast
    from b(3) i False j(3) have par: "sec_parent (sections m ! i) = Some (j, 1)" by auto
    from b(2) j(1) have "sum_list (dists sk (?segs ! j)) \<noteq> 0" by auto
    with j(4) have pos: "map_of (node2pos m) (last (?segs ! i)) = Some (Fin 1)"
      by (simp add: np_divide_self)
    from b(3) i False have "\<not> sec_ix_is_float sk (node2sec m)"
      using connected_not_float [OF gen mem False] by simp
    with j(1,3) pos b(1) sk have loc: "location m (last (?segs ! i)) = Inr (j, Fin 1)"
      by (simp add: location_def)
    from False j(1,2,3) par pos loc b(1) show ?thesis by auto
  qed
  with b(1) show ?thesis by blast
qed

subsection \<open>Coverage\<close>



section \<open>Construction on concrete skeletons\<close>

lemma construct_y: "construct y_skeleton 1 = Inr y_model"
  by code_simp

lemma construct_demo: "construct demo_skeleton 1 = Inr demo_model"
  by code_simp

lemma tree_shaped_y: "tree_shaped y_skeleton"
  by code_simp


theorem sections_connect_to_parent_section_witness:
  "tree_shaped y_skeleton \<and> construct y_skeleton 1 = Inr y_model
   \<and> small_segments y_skeleton = [[2, 1], [3, 2], [4, 2]]
   \<and> roots y_skeleton = [1]
   \<and> length (sections y_model) = 3
   \<and> sec_parent (sections y_model ! 0) = None
   \<and> sec_parent (sections y_model ! 1) = Some (0, 1)
   \<and> sec_parent (sections y_model ! 2) = Some (0, 1)
   \<and> location y_model 2 = Inr (0, Fin 1)"
proof -
  have segs: "small_segments y_skeleton = [[2, 1], [3, 2], [4, 2]]" "roots y_skeleton = [1]"
    by code_simp+
  note c2 = sections_connect_to_parent_section [OF tree_shaped_y construct_y]
  from c2 have "length (sections y_model) = length (small_segments y_skeleton)"
    by blast
  with segs have len: "length (sections y_model) = 3" by simp
  from c2 have "\<forall>i < length (small_segments y_skeleton).
        last (small_segments y_skeleton ! i) \<notin> set (roots y_skeleton) \<longrightarrow>
            (\<exists>j < length (sections y_model).
               map_of (node2sec y_model) (last (small_segments y_skeleton ! i)) = Some j
               \<and> location y_model (last (small_segments y_skeleton ! i)) = Inr (j, Fin 1)
               \<and> sec_parent (sections y_model ! i) = Some (j, 1))"
    by blast
  moreover have "(1 :: nat) < length (small_segments y_skeleton)"
    "last (small_segments y_skeleton ! 1) = 2"
    "last (small_segments y_skeleton ! 1) \<notin> set (roots y_skeleton)"
    by (simp_all add: segs)
  ultimately have "\<exists>j < length (sections y_model). map_of (node2sec y_model) 2 = Some j
               \<and> location y_model 2 = Inr (j, Fin 1)
               \<and> sec_parent (sections y_model ! 1) = Some (j, 1)"
    by metis
  moreover have "map_of (node2sec y_model) 2 = Some 0" by code_simp
  ultimately have one: "location y_model 2 = Inr (0, Fin 1)"
    "sec_parent (sections y_model ! 1) = Some (0, 1)"
    by auto
  have "sec_parent (sections y_model ! 0) = None"
    "sec_parent (sections y_model ! 2) = Some (0, 1)"
    by code_simp+
  with one len segs tree_shaped_y construct_y show ?thesis by blast
qed

text \<open>
  Claim C4 fails where a root has no child, and the code has no guard for it. A
  skeleton of two fragments, the root 1 with its leaf 2 and the lone root 3, passes
  validation with the warning for multiple roots. A chain starts at a node that has a
  parent, so no Segment holds node 3: it gets no entry in the location map although the
  first loop is written to find, for each node, its position within its section. The
  column \<open>sec_ix\<close> is then a float column, and every later lookup of a Section raises
  \<open>IndexError\<close>, also for the nodes that are mapped: no recorder and no stimulus can
  be added to the model. With a branch point in the other fragment the constructor itself
  raises, in the third loop. A skeleton of a single node gives a model without a Section.
\<close>

theorem childless_root_gets_no_location:
  "validate_skeleton stray_skeleton = Inr [MultipleRootsWarning]
   \<and> construct stray_skeleton 1 = Inr stray_model
   \<and> node_ids stray_skeleton = [1, 2, 3]
   \<and> roots stray_skeleton = [1, 3]
   \<and> small_segments stray_skeleton = [[2, 1]]
   \<and> node2sec stray_model = [(1, 0), (2, 0)]
   \<and> node2pos stray_model = [(1, Fin 0), (2, Fin 1)]
   \<and> map_of (node2sec stray_model) 3 = None
   \<and> map_of (node2pos stray_model) 3 = None
   \<and> fst ` set (node2sec stray_model) \<noteq> set (node_ids stray_skeleton)
   \<and> location stray_model 3 = Inl IndexError
   \<and> location stray_model 2 = Inl IndexError
   \<and> add_voltage_record demo_engine [2] None stray_model = (Some IndexError, stray_model)
   \<and> inject_current_pulse demo_engine [2] 5 1 (1 / 10) stray_model = (Some IndexError, stray_model)
   \<and> validate_skeleton stray_y_skeleton = Inr [MultipleRootsWarning]
   \<and> construct stray_y_skeleton 1 = Inl IndexError
   \<and> validate_skeleton lone_skeleton = Inr []
   \<and> construct lone_skeleton 1 = Inr lone_model
   \<and> node_ids lone_skeleton = [1]
   \<and> node2sec lone_model = [] \<and> sections lone_model = []"
  by code_simp

subsection \<open>Subdivision counts\<close>

lemma collect_Inr_set: "collect xs = Inr vs \<Longrightarrow> \<forall>v \<in> set vs. Inr v \<in> set xs"
proof (induction xs arbitrary: vs)
  case Nil
  then show ?case by simp
next
  case (Cons x xs)
  then show ?case by (auto split: sum.splits)
qed


lemma edge_weight_Inr:
  "edge_weight sk c p = Inr w \<Longrightarrow> \<exists>row \<in> set (nodes sk). w = parent_dist row"
  by (auto simp: edge_weight_def find_Some_iff split: option.splits)

lemma segment_length_nonneg:
  assumes "\<forall>row \<in> set (nodes sk). 0 \<le> parent_dist row" and "segment_length sk seg = Inr len"
  shows "0 \<le> len"
proof -
  from assms(2) obtain ds where ds: "seg_dist sk seg = Inr ds" and len: "len = sum_list ds"
    by (auto simp: segment_length_def split: sum.splits)
  have "0 \<le> w" if "w \<in> set ds" for w
  proof -
    from collect_Inr_set [OF ds [unfolded seg_dist_def]] that
    obtain c p where "edge_weight sk c p = Inr w" by auto
    from edge_weight_Inr [OF this] assms(1) show ?thesis by auto
  qed
  then show ?thesis unfolding len by (intro sum_list_nonneg)
qed

lemma nseg_of_odd:
  assumes "nseg_of len r = Inr n" and "0 \<le> len" and "0 < r"
  shows "n = 1 + 2 * \<lfloor>len / (2 * r)\<rfloor> \<and> odd n \<and> 1 \<le> n"
proof -
  from assms(2,3) have q: "0 \<le> len / (r * 2)" by simp
  with assms(1,3) have n: "n = 1 + 2 * \<lfloor>len / (r * 2)\<rfloor>"
    by (simp add: nseg_of_def py_int_def)
  from q have "0 \<le> \<lfloor>len / (r * 2)\<rfloor>" by simp
  with n show ?thesis by (simp add: mult.commute)
qed

lemma connect_loop_fields:
  "connect_loop sk n2s i segs secs = Inr secs' \<Longrightarrow>
     length secs' = length secs
     \<and> (\<forall>k < length secs. sec_L (secs' ! k) = sec_L (secs ! k) \<and> sec_nseg (secs' ! k) = sec_nseg (secs ! k))"
proof (induction segs arbitrary: i secs)
  case Nil
  then show ?case by simp
next
  case (Cons seg segs)
  show ?case
  proof (cases "last seg \<in> set (roots sk)")
    case True
    with Cons.prems have "connect_loop sk n2s (Suc i) segs secs = Inr secs'"
      by (simp split: if_splits)
    from Cons.IH [OF this] show ?thesis .
  next
    case False
    with Cons.prems obtain p where
      run: "connect_loop sk n2s (Suc i) segs (secs[i := (secs ! i)\<lparr>sec_parent := Some (p, 1)\<rparr>]) = Inr secs'"
      by (auto split: if_splits option.splits)
    let ?secs = "secs[i := (secs ! i)\<lparr>sec_parent := Some (p, 1)\<rparr>]"
    have "sec_L (?secs ! k) = sec_L (secs ! k) \<and> sec_nseg (?secs ! k) = sec_nseg (secs ! k)"
      if "k < length secs" for k
      using that by (cases "k = i") simp_all
    with Cons.IH [OF run] show ?thesis by simp
  qed
qed

text \<open>
  Claim C3. When construction succeeds with a positive resolution on a skeleton whose
  edge weights are not negative (they are distances), there is one Section per Segment,
  its length is the Segment's length, and its subdivision count is
  \<open>1 + 2 * floor(length / (2 * res))\<close>, an odd number that is at least 1.
\<close>

theorem nseg_is_odd:
  assumes "construct sk r = Inr m" and "0 < r"
    and "\<forall>row \<in> set (nodes sk). 0 \<le> parent_dist row"
  shows "length (sections m) = length (small_segments sk)
     \<and> (\<forall>i < length (sections m).
          segment_length sk (small_segments sk ! i) = Inr (sec_L (sections m ! i))
          \<and> sec_nseg (sections m ! i) = 1 + 2 * \<lfloor>sec_L (sections m ! i) / (2 * r)\<rfloor>
          \<and> odd (sec_nseg (sections m ! i)) \<and> 1 \<le> sec_nseg (sections m ! i))"
proof -
  let ?segs = "small_segments sk"
  from assms(1) have gen: "generate_sections sk r = Inr m" by (rule construct_Inr)
  from generate_sections_Inr [OF gen] obtain secs where
    secs: "sections_loop sk r 0 ?segs = Inr secs"
    and con: "connect_loop sk (node2sec m) 0 ?segs secs = Inr (sections m)"
    by blast
  from sections_loop_Inr [OF secs] have len: "length secs = length ?segs"
    and mk: "\<forall>j < length ?segs. make_section sk r (0 + j) (?segs ! j) = Inr (secs ! j)"
    by simp_all
  from connect_loop_fields [OF con] have len': "length (sections m) = length secs"
    and same: "\<forall>k < length secs. sec_L (sections m ! k) = sec_L (secs ! k)
        \<and> sec_nseg (sections m ! k) = sec_nseg (secs ! k)"
    by simp_all
  have "segment_length sk (?segs ! i) = Inr (sec_L (sections m ! i))
          \<and> sec_nseg (sections m ! i) = 1 + 2 * \<lfloor>sec_L (sections m ! i) / (2 * r)\<rfloor>
          \<and> odd (sec_nseg (sections m ! i)) \<and> 1 \<le> sec_nseg (sections m ! i)"
    if i: "i < length (sections m)" for i
  proof -
    from i len len' have i': "i < length ?segs" "i < length secs" by simp_all
    with mk have "make_section sk r i (?segs ! i) = Inr (secs ! i)" by simp
    from make_section_fields [OF this]
    have sl: "segment_length sk (?segs ! i) = Inr (sec_L (secs ! i))"
      and ns: "nseg_of (sec_L (secs ! i)) r = Inr (sec_nseg (secs ! i))"
      by simp_all
    from segment_length_nonneg [OF assms(3) sl] have "0 \<le> sec_L (secs ! i)" .
    note odd = nseg_of_odd [OF ns this assms(2)]
    from same i'(2) have e: "sec_L (sections m ! i) = sec_L (secs ! i)"
      "sec_nseg (sections m ! i) = sec_nseg (secs ! i)"
      by simp_all
    show ?thesis unfolding e using odd sl by blast
  qed
  moreover from len len' have "length (sections m) = length ?segs" by simp
  ultimately show ?thesis by blast
qed

theorem nseg_is_odd_witness:
  "construct demo_skeleton 1 = Inr demo_model
   \<and> map sec_L (sections demo_model) = [2, 1, 4]
   \<and> map sec_nseg (sections demo_model) = [3, 1, 5]
   \<and> odd (sec_nseg (sections demo_model ! 2)) \<and> 1 \<le> sec_nseg (sections demo_model ! 2)
   \<and> sec_nseg (sections demo_model ! 2) = 1 + 2 * \<lfloor>sec_L (sections demo_model ! 2) / (2 * 1)\<rfloor>"
proof -
  have w: "\<forall>row \<in> set (nodes demo_skeleton). 0 \<le> parent_dist row"
    by (simp add: demo_skeleton_def mk_row_def)
  have l: "length (sections demo_model) = 3" "map sec_L (sections demo_model) = [2, 1, 4]"
    "map sec_nseg (sections demo_model) = [3, 1, 5]"
    by (simp_all add: demo_model_def new_section_def)
  have "(0 :: rat) < 1" by simp
  from nseg_is_odd [OF construct_demo this w]
  have "2 < length (sections demo_model) \<longrightarrow>
     segment_length demo_skeleton (small_segments demo_skeleton ! 2) = Inr (sec_L (sections demo_model ! 2))
     \<and> sec_nseg (sections demo_model ! 2) = 1 + 2 * \<lfloor>sec_L (sections demo_model ! 2) / (2 * 1)\<rfloor>
     \<and> odd (sec_nseg (sections demo_model ! 2)) \<and> 1 \<le> sec_nseg (sections demo_model ! 2)"
    by blast
  moreover have "2 < length (sections demo_model)" by (simp add: l(1))
  ultimately have "odd (sec_nseg (sections demo_model ! 2)) \<and> 1 \<le> sec_nseg (sections demo_model ! 2)
     \<and> sec_nseg (sections demo_model ! 2) = 1 + 2 * \<lfloor>sec_L (sections demo_model ! 2) / (2 * 1)\<rfloor>"
    by blast
  with construct_demo l show ?thesis by blast
qed

subsection \<open>Validation\<close>









lemma all_nodes_mapped:
  assumes ts: "tree_shaped sk" and rc: "\<forall>n \<in> set (roots sk). children sk n \<noteq> []"
    and run: "locate_loop sk 0 (small_segments sk) [] [] = Inr (n2s, n2p)"
  shows "fst ` set n2s = set (node_ids sk)" and "fst ` set n2p = set (node_ids sk)"
    and "\<not> sec_ix_is_float sk n2s"
proof -
  let ?segs = "small_segments sk"
  from ts have d: "distinct (node_ids sk)" by (simp add: tree_shaped_def)
  have chains: "\<forall>s \<in> set ?segs. chain sk s"
    using seed_segment [OF ts] by blast
  have cover: "(\<Union>seg \<in> set ?segs. set (kept sk seg)) = set (node_ids sk)"
  proof
    show "(\<Union>seg \<in> set ?segs. set (kept sk seg)) \<subseteq> set (node_ids sk)"
      using kept_in_ids [OF ts] by blast
    show "set (node_ids sk) \<subseteq> (\<Union>seg \<in> set ?segs. set (kept sk seg))"
    proof
      fix n assume n: "n \<in> set (node_ids sk)"
      from rc have "n \<in> set (roots sk) \<longrightarrow> children sk n \<noteq> []" by blast
      from kept_covers [OF ts n this] show "n \<in> (\<Union>seg \<in> set ?segs. set (kept sk seg))"
        by blast
    qed
  qed
  from locate_loop_keys [OF d chains run] cover
  show k1: "fst ` set n2s = set (node_ids sk)" and "fst ` set n2p = set (node_ids sk)"
    by simp_all
  from k1 show "\<not> sec_ix_is_float sk n2s"
    by (auto simp: sec_ix_is_float_def map_of_eq_None_iff)
qed

text \<open>
  When section building returns a model: on a tree-shaped skeleton whose roots all have
  a child, with a positive resolution, when every Segment has a length greater than 0
  that gives a subdivision count within NEURON's range.
\<close>

lemma generate_sections_tree:
  assumes ts: "tree_shaped sk" and rc: "\<forall>n \<in> set (roots sk). children sk n \<noteq> []"
    and r: "0 < r"
    and len: "\<forall>seg \<in> set (small_segments sk).
        0 < sum_list (dists sk seg) \<and> sum_list (dists sk seg) < 32768 * r"
  shows "\<exists>m. generate_sections sk r = Inr m"
proof -
  let ?segs = "small_segments sk"
  from ts have d: "distinct (node_ids sk)" by (simp add: tree_shaped_def)
  have chains: "\<forall>s \<in> set ?segs. chain sk s"
    using seed_segment [OF ts] by blast
  from locate_loop_succeeds [OF d chains] obtain n2s n2p where
    loc: "locate_loop sk 0 ?segs [] [] = Inr (n2s, n2p)" by blast
  have "\<forall>seg \<in> set ?segs. \<forall>i. \<exists>s. make_section sk r i seg = Inr s"
    using make_section_chain [OF ts _ r] chains len by blast
  from sections_loop_succeeds [OF this] obtain secs where
    secs: "sections_loop sk r 0 ?segs = Inr secs" by blast
  from sections_loop_Inr [OF secs] have len': "length secs = length ?segs" by simp
  have "\<forall>seg \<in> set ?segs. seg \<noteq> [] \<and> (last seg \<notin> set (roots sk) \<longrightarrow>
       last seg \<in> set (node_ids sk) \<and> (\<exists>p. map_of n2s (last seg) = Some p \<and> p < length secs))"
  proof (intro ballI conjI impI)
    fix seg assume seg: "seg \<in> set ?segs"
    with chains have ch: "chain sk seg" by simp
    from chain_length [OF ch] show ne: "seg \<noteq> []" by auto
    assume nr: "last seg \<notin> set (roots sk)"
    from chain_in_ids [OF ch ts] ne show "last seg \<in> set (node_ids sk)" by auto
    from branch_point_location [OF ts loc seg nr] len'
    show "\<exists>p. map_of n2s (last seg) = Some p \<and> p < length secs" by auto
  qed
  from connect_loop_succeeds [OF all_nodes_mapped(3) [OF ts rc loc] this] obtain secs' where
    "connect_loop sk n2s 0 ?segs secs = Inr secs'" by blast
  with loc secs show ?thesis by (simp add: generate_sections_def)
qed



text \<open>
  What section building refuses after validation has passed: a Segment of length 0, a
  Segment too long for the resolution, a negative resolution, a root without a child
  beside a branch point.
\<close>

lemma construction_errors_after_validation:
  "validate_skeleton flat_skeleton = Inr []
   \<and> construct flat_skeleton 1 = Inl (ValueError ''L must be > 0.'')
   \<and> validate_skeleton flat_y_skeleton = Inr []
   \<and> construct flat_y_skeleton 1 = Inl (ValueError ''L must be > 0.'')
   \<and> construct demo_skeleton (1 / 20000) =
        Inl (ValueError ''nseg must be an integer in range 1 to 32767'')
   \<and> construct demo_skeleton (- 1) =
        Inl (ValueError ''nseg must be an integer in range 1 to 32767'')
   \<and> construct demo_skeleton 0 = Inl ZeroDivisionError
   \<and> construct stray_y_skeleton 1 = Inl IndexError"
  by code_simp

subsection \<open>Bounds of the resolved positions\<close>





subsection \<open>No call changes a location\<close>

lemma same_locations_refl [simp]: "same_locations m m"
  by (simp add: same_locations_def)














subsection \<open>The registry refers to existing objects\<close>

lemma record_loop_refer:
  "records_refer m \<Longrightarrow> records_refer (snd (record_loop E w label ns m))"
proof (induction ns arbitrary: m)
  case Nil
  then show ?case by simp
next
  case (Cons n ns)
  show ?case
  proof (cases "location m n")
    case (Inl e)
    with Cons.prems show ?thesis by simp
  next
    case (Inr ix)
    obtain i x where ix: "ix = (i, x)" by (cases ix)
    let ?m1 = "m\<lparr>hoc := hoc m @ [Vector None]\<rparr>"
    let ?m3 = "m\<lparr>hoc := hoc m @ [Vector (Some (i, x, w))],
               records := AList.update (record_key label n) (length (hoc m)) (records m)\<rparr>"
    from Cons.prems have r1: "records_refer ?m1"
      by (auto simp: records_refer_def)
    from Cons.prems update_values [of "record_key label n" "length (hoc m)" "records m"]
    have "records_refer ?m3"
      by (fastforce simp: records_refer_def)
    from Cons.IH [OF this] r1 Inr ix show ?thesis
      by (simp add: Let_def new_ref_def create_def)
  qed
qed

lemma stimulus_loop_refer:
  "records_refer m \<Longrightarrow> records_refer (snd (stimulus_loop c kwargs ns m))"
proof (induction ns arbitrary: m)
  case Nil
  then show ?case by simp
next
  case (Cons n ns)
  show ?case
  proof (cases "location m n")
    case (Inl e)
    with Cons.prems show ?thesis by simp
  next
    case (Inr ix)
    obtain i x where ix: "ix = (i, x)" by (cases ix)
    let ?m2 = "(create (PointProcess c i x kwargs) m)
        \<lparr>stimuli := AList.update n (get_list (stimuli (create (PointProcess c i x kwargs) m)) n @ [new_ref m])
            (stimuli (create (PointProcess c i x kwargs) m))\<rparr>"
    from Cons.prems have "records_refer ?m2"
      by (auto simp: records_refer_def create_def)
    from Cons.IH [OF this] Inr ix show ?thesis
      by (simp add: Let_def)
  qed
qed

lemma synaptic_loop_refer:
  "records_refer m \<Longrightarrow> records_refer (snd (synaptic_loop P stim ns m))"
proof (induction ns arbitrary: m)
  case Nil
  then show ?case by simp
next
  case (Cons n ns)
  show ?case
  proof (cases "location m n")
    case (Inl e)
    with Cons.prems show ?thesis by simp
  next
    case (Inr ix)
    obtain i x where ix: "ix = (i, x)" by (cases ix)
    let ?m4 = "m\<lparr>synapses := AList.update n (get_list (synapses m) n @ [length (hoc m)]) (synapses m),
                 hoc := hoc m @ [PointProcess ''Exp2Syn'' i x
                      [(''tau1'', syn_tau1 P), (''tau2'', syn_tau2 P),
                       (''e'', syn_rev_pot P), (''i'', syn_curr P)],
                    NetCon stim (length (hoc m))
                      [(''threshold'', cn_thresh P), (''delay'', cn_delay P),
                       (''weight[0]'', cn_weight P)]],
                 stimuli := AList.update n (get_list (stimuli m) n @ [Suc (length (hoc m)), stim]) (stimuli m)\<rparr>"
    from Cons.prems have "records_refer ?m4"
      by (auto simp: records_refer_def)
    from Cons.IH [OF this] Inr ix show ?thesis
      by (simp add: Let_def new_ref_def create_def)
  qed
qed

lemma insert_loop_refer:
  "records_refer m \<Longrightarrow> records_refer (snd (insert_loop E mech kwargs ixs m))"
proof (induction ixs arbitrary: m)
  case Nil
  then show ?case by simp
next
  case (Cons i ixs)
  obtain e s' where s': "sec_insert E mech kwargs (sections m ! i) = (e, s')"
    by (cases "sec_insert E mech kwargs (sections m ! i)")
  let ?m = "m\<lparr>sections := (sections m)[i := s']\<rparr>"
  from Cons.prems have one: "records_refer ?m" by (simp add: records_refer_def)
  show ?case
  proof (cases e)
    case None
    with Cons.IH [OF one] s' show ?thesis by simp
  next
    case (Some err)
    with one s' show ?thesis by simp
  qed
qed

lemma add_record_refer: "records_refer m \<Longrightarrow> records_refer (snd (add_record E wh what label m))"
  using record_loop_refer [of m]
  by (cases what) (auto simp: add_record_def)

lemma add_stimulus_refer: "records_refer m \<Longrightarrow> records_refer (snd (add_stimulus E s wh kwargs m))"
  using stimulus_loop_refer [of m]
  by (auto simp: add_stimulus_def split: stim_arg.splits)

lemma add_synaptic_input_refer:
  assumes "records_refer m"
  shows "records_refer (snd (add_synaptic_input wh P m))"
proof -
  let ?m1 = "create (NetStim [(''number'', spike_no P), (''start'', start P),
                  (''noise'', spike_noise P), (''interval'', spike_int P)]) m"
  from assms have "records_refer ?m1" by (auto simp: records_refer_def create_def)
  from this synaptic_loop_refer [OF this] show ?thesis
    by (simp add: add_synaptic_input_def Let_def)
qed

lemma perform_refer: "records_refer m \<Longrightarrow> records_refer (snd (perform E c m))"
proof (cases c)
  case (Insert mech sub kwargs)
  assume "records_refer m"
  with Insert insert_loop_refer [of m] show ?thesis
    by (auto simp: insert_mech_def split: sum.splits)
next
  case (Uninsert mech sub)
  assume "records_refer m"
  with Uninsert show ?thesis
    by (simp add: uninsert_changes_nothing)
qed (simp_all add: add_synaptic_input_refer add_stimulus_refer add_record_refer
    inject_current_pulse_def add_synaptic_current_def add_voltage_record_def add_current_record_def,
    simp_all add: records_refer_def clear_records_def clear_stimuli_def clear_synapses_def
    clear_def set_cm_def set_Ra_def)

lemma lifetime_refer: "records_refer m \<Longrightarrow> records_refer (lifetime E cs m)"
proof (induction cs arbitrary: m)
  case Nil
  then show ?case by simp
next
  case (Cons c cs)
  from Cons.IH [OF perform_refer [OF Cons.prems]] show ?case by simp
qed

lemma constructed_refer:
  assumes "construct sk r = Inr m"
  shows "records_refer (lifetime E cs m)"
proof -
  from assms have "records m = []"
    by (auto simp: construct_def generate_sections_def split: sum.splits prod.splits)
  then have "records_refer m" by (simp add: records_refer_def)
  then show ?thesis by (rule lifetime_refer)
qed

end
